theory Spec2Isabelle
  imports Main "HOL-Library.AList"
begin

section \<open>Data model of \<^verbatim>\<open>algorithms/graphs/graph.py\<close>\<close>

text \<open>
  Python values that reach the graph as keys, weights and positional arguments: integers,
  strings and tuples of these (all hashable). Floats and other objects are outside the model.
\<close>

datatype pyval = PInt int | PStr string | PTuple "pyval list"

datatype error = KeyError | ValueError | TypeError | RecursionError

text \<open>The colours \<^verbatim>\<open>WHITE = 0\<close>, \<^verbatim>\<open>BLACK = 1\<close>, \<^verbatim>\<open>GRAY = 2\<close>.\<close>

datatype color = WHITE | BLACK | GRAY

text \<open>
  \<^verbatim>\<open>Vertex\<close> objects are compared and hashed by identity, so the dictionaries
  \<^verbatim>\<open>connected_to\<close> and \<^verbatim>\<open>dist\<close> are keyed by object reference. A reference is the
  position of the object in the list of all \<^verbatim>\<open>Vertex\<close> objects ever created for the graph.
  Dictionaries are association lists in insertion order; \<open>AList.update\<close> overwrites an
  existing key in place and appends a new one, as a Python \<^verbatim>\<open>dict\<close> does.
  The field \<^verbatim>\<open>id\<close> is called \<open>vid\<close> (\<open>id\<close> is the identity function of HOL).
\<close>

type_synonym ref = nat

record vertex =
  vid :: pyval
  connected_to :: "(ref \<times> pyval) list"
  dist :: "(ref \<times> int) list"
  color :: color
  predecessor :: "ref option"

record graph =
  objects :: "vertex list"
  vertices :: "(pyval \<times> ref) list"
  num_vertices :: int
  directed :: bool

text \<open>\<^verbatim>\<open>sys.maxsize\<close> of a 64-bit CPython. Python integers are unbounded: nothing wraps.\<close>

definition maxsize :: int where
  "maxsize = 2 ^ 63 - 1"

definition Vertex :: "pyval \<Rightarrow> vertex" where
  "Vertex key = \<lparr>vid = key, connected_to = [], dist = [], color = WHITE, predecessor = None\<rparr>"

definition add_neighbour :: "vertex \<Rightarrow> ref \<Rightarrow> pyval \<Rightarrow> vertex" where
  "add_neighbour v neighbour weight =
     v\<lparr>connected_to := AList.update neighbour weight (connected_to v)\<rparr>"

definition get_connections :: "vertex \<Rightarrow> ref list" where
  "get_connections v = map fst (connected_to v)"

definition get_weight :: "vertex \<Rightarrow> ref \<Rightarrow> error + pyval" where
  "get_weight v neighbour =
     (case map_of (connected_to v) neighbour of None \<Rightarrow> Inl KeyError | Some w \<Rightarrow> Inr w)"

definition Graph :: "bool \<Rightarrow> graph" where
  "Graph d = \<lparr>objects = [], vertices = [], num_vertices = 0, directed = d\<rparr>"

subsection \<open>Basic commands and queries\<close>

definition get_vertex :: "graph \<Rightarrow> pyval \<Rightarrow> error + ref" where
  "get_vertex g key =
     (case map_of (vertices g) key of Some v \<Rightarrow> Inr v | None \<Rightarrow> Inl KeyError)"

definition get_vertices :: "graph \<Rightarrow> pyval list" where
  "get_vertices g = map fst (vertices g)"

text \<open>
  \<^verbatim>\<open>get_edges\<close>: for each stored vertex \<open>v\<close>, in dictionary order, one triple
  \<^verbatim>\<open>(v, u, v.get_weight(u))\<close> per key \<open>u\<close> of \<^verbatim>\<open>v.connected_to\<close>. The first two components are
  \<^verbatim>\<open>Vertex\<close> objects. The weight is read from the dictionary that is being iterated, so the
  lookup cannot fail.
\<close>

definition get_edges :: "graph \<Rightarrow> (ref \<times> ref \<times> pyval) list" where
  "get_edges g =
     concat (map (\<lambda>v. map (\<lambda>(u, w). (v, u, w)) (connected_to (objects g ! v)))
                 (map snd (vertices g)))"

definition add_vertex :: "graph \<Rightarrow> pyval \<Rightarrow> graph" where
  "add_vertex g key =
     g\<lparr>num_vertices := num_vertices g + 1,
       objects := objects g @ [Vertex key],
       vertices := AList.update key (length (objects g)) (vertices g)\<rparr>"

text \<open>The subscript \<^verbatim>\<open>self.vertices[key]\<close>.\<close>

definition vertices_at :: "graph \<Rightarrow> pyval \<Rightarrow> error + ref" where
  "vertices_at g key =
     (case map_of (vertices g) key of None \<Rightarrow> Inl KeyError | Some v \<Rightarrow> Inr v)"

definition neighbour_added :: "graph \<Rightarrow> pyval \<Rightarrow> pyval \<Rightarrow> pyval \<Rightarrow> error + graph" where
  "neighbour_added g k1 k2 weight =
     (case vertices_at g k1 of Inl e \<Rightarrow> Inl e | Inr a \<Rightarrow>
      case vertices_at g k2 of Inl e \<Rightarrow> Inl e | Inr b \<Rightarrow>
        Inr (g\<lparr>objects := (objects g)[a := add_neighbour (objects g ! a) b weight]\<rparr>))"

text \<open>
  \<^verbatim>\<open>add_edge(self, *edge)\<close>: the argument is the tuple of the positional arguments. The
  unpacking \<^verbatim>\<open>vertex_1, vertex_2, *cost = edge\<close> raises \<^verbatim>\<open>ValueError\<close> when there are
  fewer than two.
\<close>

definition add_edge :: "graph \<Rightarrow> pyval list \<Rightarrow> error + graph" where
  "add_edge g edge =
     (case edge of
        vertex_1 # vertex_2 # cost \<Rightarrow>
          (let g1 = (if vertex_1 \<notin> set (get_vertices g) then add_vertex g vertex_1 else g);
               g2 = (if vertex_2 \<notin> set (get_vertices g1) then add_vertex g1 vertex_2 else g1);
               weight = (if length cost = 0 then PInt 0 else cost ! 0)
           in case neighbour_added g2 vertex_1 vertex_2 weight of
                Inl e \<Rightarrow> Inl e
              | Inr g3 \<Rightarrow>
                  if \<not> directed g3 then neighbour_added g3 vertex_2 vertex_1 weight
                  else Inr g3)
      | _ \<Rightarrow> Inl ValueError)"

text \<open>
  \<^verbatim>\<open>add_edges\<close> passes each element of the list as the single positional argument of
  \<^verbatim>\<open>add_edge\<close>.
\<close>

fun add_edges :: "graph \<Rightarrow> pyval list \<Rightarrow> error + graph" where
  "add_edges g [] = Inr g"
| "add_edges g (edge # edges) =
     (case add_edge g [edge] of Inl e \<Rightarrow> Inl e | Inr g' \<Rightarrow> add_edges g' edges)"

definition connected :: "graph \<Rightarrow> pyval \<Rightarrow> pyval \<Rightarrow> error + bool" where
  "connected g key_1 key_2 =
     (case vertices_at g key_1 of Inl e \<Rightarrow> Inl e
      | Inr a \<Rightarrow> Inr (\<exists>neighbour \<in> set (get_connections (objects g ! a)).
                        key_2 = vid (objects g ! neighbour)))"

subsection \<open>Path printing\<close>

text \<open>
  What \<^verbatim>\<open>print\<close> writes: \<open>Wrote k\<close> is the key \<open>k\<close> followed by a space, \<open>NoPath s d\<close> the line
  \<^verbatim>\<open>No path from s to d exists!\<close>.

  \<^verbatim>\<open>_print_path_util\<close> calls itself once for every predecessor link, and the interpreter
  bounds the nesting of calls (\<^verbatim>\<open>sys.getrecursionlimit()\<close>, 1000 unless it was changed): every
  call of a function written in Python takes a frame, and a call for which no frame is left
  raises \<^verbatim>\<open>RecursionError\<close>; the built-in \<^verbatim>\<open>print\<close> takes none. \<open>room\<close> is the number of frames
  left where the call is made: \<open>get_id\<close> needs one, an activation of \<^verbatim>\<open>_print_path_util\<close> one
  for itself and whatever its own calls need. Every \<^verbatim>\<open>print\<close> follows the recursive call, and the
  deepest activation is the first to print, so a run that raises has written nothing, and a
  cycle of predecessor links ends in \<^verbatim>\<open>RecursionError\<close> as well.
\<close>

datatype out = Wrote pyval | NoPath pyval pyval




subsection \<open>Breadth-first search\<close>

definition bfs_reset :: "ref \<Rightarrow> ref \<Rightarrow> vertex list \<Rightarrow> vertex list" where
  "bfs_reset source u h =
     (if u \<noteq> source
      then h[u := (h ! u)\<lparr>color := WHITE, predecessor := None,
                          dist := AList.update source maxsize (dist (h ! u))\<rparr>]
      else h)"

text \<open>
  \<^verbatim>\<open>queue.Queue(n)\<close> holds at most \<open>n\<close> items when \<open>n > 0\<close> and is unbounded otherwise;
  \<^verbatim>\<open>put\<close> on a full queue waits for a consumer, which in this single thread never comes.
\<close>

definition full :: "int \<Rightarrow> ref list \<Rightarrow> bool" where
  "full n q = (0 < n \<and> n \<le> int (length q))"

text \<open>The \<^verbatim>\<open>for v in u.get_connections()\<close> loop of \<^verbatim>\<open>bfs\<close>; \<open>None\<close> is a blocked \<^verbatim>\<open>put\<close>.\<close>

fun bfs_scan :: "int \<Rightarrow> ref \<Rightarrow> ref \<Rightarrow> ref list \<Rightarrow> ref list \<times> vertex list
    \<Rightarrow> (error + ref list \<times> vertex list) option" where
  "bfs_scan n source u [] (q, h) = Some (Inr (q, h))"
| "bfs_scan n source u (v # vs) (q, h) =
     (if color (h ! v) = WHITE then
        (let h1 = h[v := (h ! v)\<lparr>color := GRAY\<rparr>] in
         case map_of (dist (h1 ! u)) source of
           None \<Rightarrow> Some (Inl KeyError)
         | Some du \<Rightarrow>
             (let h2 = h1[v := (h1 ! v)\<lparr>dist := AList.update source (du + 1) (dist (h1 ! v))\<rparr>];
                  h3 = h2[v := (h2 ! v)\<lparr>predecessor := Some u\<rparr>]
              in if full n q then None else bfs_scan n source u vs (q @ [v], h3)))
      else bfs_scan n source u vs (q, h))"

partial_function (option) bfs_loop :: "int \<Rightarrow> ref \<Rightarrow> ref list \<Rightarrow> vertex list
    \<Rightarrow> (error + vertex list) option" where
  "bfs_loop n source q h =
     (case q of
        [] \<Rightarrow> Some (Inr h)
      | u # q' \<Rightarrow>
          (case bfs_scan n source u (get_connections (h ! u)) (q', h) of
             None \<Rightarrow> None
           | Some (Inl e) \<Rightarrow> Some (Inl e)
           | Some (Inr (q'', h')) \<Rightarrow>
               bfs_loop n source q'' (h'[u := (h' ! u)\<lparr>color := BLACK\<rparr>])))"

declare bfs_loop.simps [code]

text \<open>The objects as \<^verbatim>\<open>bfs\<close> leaves them before it creates the queue.\<close>

definition bfs_start :: "graph \<Rightarrow> ref \<Rightarrow> vertex list" where
  "bfs_start g source =
     (let h0 = fold (bfs_reset source) (map snd (vertices g)) (objects g);
          h1 = h0[source := (h0 ! source)\<lparr>color := GRAY\<rparr>];
          h2 = h1[source := (h1 ! source)\<lparr>dist := AList.update source 0 (dist (h1 ! source))\<rparr>]
      in h2[source := (h2 ! source)\<lparr>predecessor := None\<rparr>])"

definition bfs :: "graph \<Rightarrow> pyval \<Rightarrow> (error + graph) option" where
  "bfs g source_key =
     (case get_vertex g source_key of
        Inl e \<Rightarrow> Some (Inl e)
      | Inr source \<Rightarrow>
          map_option (map_sum (\<lambda>e. e) (\<lambda>h. g\<lparr>objects := h\<rparr>))
            (bfs_loop (num_vertices g) source [source] (bfs_start g source)))"

subsection \<open>Depth-first search\<close>

text \<open>
  \<^verbatim>\<open>dfs_visit\<close> and its loop over the neighbours call each other; the two are one function on
  a sum: \<open>Inl u\<close> is the call \<^verbatim>\<open>dfs_visit(u)\<close>, \<open>Inr (u, vs)\<close> the rest \<open>vs\<close> of the loop inside
  \<^verbatim>\<open>dfs_visit(u)\<close>. The state is the objects and the keys printed so far. \<open>None\<close> is a run that
  does not return. The bound of the interpreter on nested calls is left out here: a run that
  nests deeper than it allows ends in \<^verbatim>\<open>RecursionError\<close> where \<open>dfs_run\<close> goes on, so \<open>dfs_run\<close>
  says what a run has written if it returns, not that it does.
\<close>

partial_function (option) dfs_run :: "ref + ref \<times> ref list \<Rightarrow> vertex list \<times> pyval list
    \<Rightarrow> (vertex list \<times> pyval list) option" where
  "dfs_run c s =
     (case c of
        Inl u \<Rightarrow>
          (case s of (h, printed) \<Rightarrow>
             Option.bind
               (dfs_run (Inr (u, get_connections (h ! u)))
                  (h[u := (h ! u)\<lparr>color := GRAY\<rparr>], printed @ [vid (h ! u)]))
               (\<lambda>(h', printed'). Some (h'[u := (h' ! u)\<lparr>color := BLACK\<rparr>], printed')))
      | Inr (u, []) \<Rightarrow> Some s
      | Inr (u, v # vs) \<Rightarrow>
          (case s of (h, printed) \<Rightarrow>
             if color (h ! v) = WHITE then
               Option.bind
                 (dfs_run (Inl v) (h[v := (h ! v)\<lparr>predecessor := Some u\<rparr>], printed))
                 (dfs_run (Inr (u, vs)))
             else dfs_run (Inr (u, vs)) s))"

declare dfs_run.simps [code]

definition dfs_visit :: "ref \<Rightarrow> vertex list \<times> pyval list \<Rightarrow> (vertex list \<times> pyval list) option" where
  "dfs_visit u s = dfs_run (Inl u) s"

definition dfs_reset :: "ref \<Rightarrow> vertex list \<Rightarrow> vertex list" where
  "dfs_reset u h = h[u := (h ! u)\<lparr>color := WHITE, predecessor := None\<rparr>]"

fun dfs_roots :: "ref list \<Rightarrow> vertex list \<times> pyval list \<Rightarrow> (vertex list \<times> pyval list) option" where
  "dfs_roots [] s = Some s"
| "dfs_roots (u # us) s =
     (if color (fst s ! u) = WHITE then Option.bind (dfs_visit u s) (dfs_roots us)
      else dfs_roots us s)"

definition dfs :: "graph \<Rightarrow> (graph \<times> pyval list) option" where
  "dfs g =
     map_option (\<lambda>(h, printed). (g\<lparr>objects := h\<rparr>, printed))
       (dfs_roots (map snd (vertices g))
          (fold dfs_reset (map snd (vertices g)) (objects g), []))"

subsection \<open>Single-source shortest paths\<close>

definition source_reset :: "ref \<Rightarrow> ref \<Rightarrow> vertex list \<Rightarrow> vertex list" where
  "source_reset source v h =
     h[v := (h ! v)\<lparr>dist := AList.update source maxsize (dist (h ! v)), predecessor := None\<rparr>]"

definition initialize_single_source :: "graph \<Rightarrow> ref \<Rightarrow> graph" where
  "initialize_single_source g source =
     (let h = fold (source_reset source) (map snd (vertices g)) (objects g)
      in g\<lparr>objects := h[source := (h ! source)\<lparr>dist := AList.update source 0 (dist (h ! source))\<rparr>]\<rparr>)"

text \<open>The subscript \<^verbatim>\<open>v.dist[source]\<close> and the sum \<^verbatim>\<open>d + weight\<close> of an integer and a value.\<close>

definition dist_at :: "vertex list \<Rightarrow> ref \<Rightarrow> ref \<Rightarrow> error + int" where
  "dist_at h v source =
     (case map_of (dist (h ! v)) source of None \<Rightarrow> Inl KeyError | Some d \<Rightarrow> Inr d)"

definition plus_weight :: "int \<Rightarrow> pyval \<Rightarrow> error + int" where
  "plus_weight d weight = (case weight of PInt w \<Rightarrow> Inr (d + w) | _ \<Rightarrow> Inl TypeError)"

text \<open>The test \<^verbatim>\<open>v.dist[source] > u.dist[source] + weight\<close> of both relaxations and of the final scan.\<close>

definition improves :: "vertex list \<Rightarrow> ref \<Rightarrow> ref \<Rightarrow> ref \<Rightarrow> pyval \<Rightarrow> error + bool \<times> int" where
  "improves h source u v weight =
     (case dist_at h v source of Inl e \<Rightarrow> Inl e | Inr dv \<Rightarrow>
      case dist_at h u source of Inl e \<Rightarrow> Inl e | Inr du \<Rightarrow>
      case plus_weight du weight of Inl e \<Rightarrow> Inl e | Inr s \<Rightarrow> Inr (dv > s, s))"

definition relaxed :: "vertex list \<Rightarrow> ref \<Rightarrow> ref \<Rightarrow> ref \<Rightarrow> int \<Rightarrow> vertex list" where
  "relaxed h source u v s =
     (let h1 = h[v := (h ! v)\<lparr>dist := AList.update source s (dist (h ! v))\<rparr>]
      in h1[v := (h1 ! v)\<lparr>predecessor := Some u\<rparr>])"

definition relax :: "ref \<Rightarrow> ref \<Rightarrow> ref \<Rightarrow> pyval \<Rightarrow> vertex list \<Rightarrow> error + vertex list" where
  "relax source u v weight h =
     (case improves h source u v weight of
        Inl e \<Rightarrow> Inl e
      | Inr (b, s) \<Rightarrow> if b then Inr (relaxed h source u v s) else Inr h)"

subsection \<open>Bellman-Ford\<close>

fun relax_edges :: "ref \<Rightarrow> (ref \<times> ref \<times> pyval) list \<Rightarrow> vertex list \<Rightarrow> error + vertex list" where
  "relax_edges source [] h = Inr h"
| "relax_edges source (edge # edges) h =
     (case relax source (fst edge) (fst (snd edge)) (snd (snd edge)) h of
        Inl e \<Rightarrow> Inl e
      | Inr h' \<Rightarrow> relax_edges source edges h')"

fun passes :: "nat \<Rightarrow> ref \<Rightarrow> graph \<Rightarrow> error + graph" where
  "passes 0 source g = Inr g"
| "passes (Suc n) source g =
     (case relax_edges source (get_edges g) (objects g) of
        Inl e \<Rightarrow> Inl e
      | Inr h \<Rightarrow> passes n source (g\<lparr>objects := h\<rparr>))"

fun final_scan :: "ref \<Rightarrow> (ref \<times> ref \<times> pyval) list \<Rightarrow> vertex list \<Rightarrow> error + unit" where
  "final_scan source [] h = Inr ()"
| "final_scan source (edge # edges) h =
     (case improves h source (fst edge) (fst (snd edge)) (snd (snd edge)) of
        Inl e \<Rightarrow> Inl e
      | Inr (b, s) \<Rightarrow> if b then Inl ValueError else final_scan source edges h)"

text \<open>\<^verbatim>\<open>range(k)\<close> is empty for \<open>k \<le> 0\<close>: \<open>nat k\<close> passes.\<close>

definition bellman_ford_passes :: "int \<Rightarrow> graph \<Rightarrow> pyval \<Rightarrow> error + graph" where
  "bellman_ford_passes k g source_key =
     (case get_vertex g source_key of
        Inl e \<Rightarrow> Inl e
      | Inr source \<Rightarrow>
          (case passes (nat k) source (initialize_single_source g source) of
             Inl e \<Rightarrow> Inl e
           | Inr g' \<Rightarrow>
               (case final_scan source (get_edges g') (objects g') of
                  Inl e \<Rightarrow> Inl e
                | Inr _ \<Rightarrow> Inr g')))"

definition bellman_ford :: "graph \<Rightarrow> pyval \<Rightarrow> error + graph" where
  "bellman_ford g source_key = bellman_ford_passes (num_vertices g - 1) g source_key"

subsection \<open>Dijkstra\<close>

text \<open>
  Modelled from the spec: the class \<^verbatim>\<open>MutablePriorityQueue\<close> of \<^verbatim>\<open>datastructures.heap\<close>, which
  is not among the sources. \<^verbatim>\<open>add_task(item, priority)\<close> inserts the item if absent or updates
  its priority if present, \<^verbatim>\<open>pop_task()\<close> removes and returns an item of minimum priority,
  \<^verbatim>\<open>empty()\<close> tells whether no item is left. Among items of the same minimum priority the spec
  does not say which one is returned; the model returns the one that entered the queue first.
\<close>

type_synonym priority_queue = "(ref \<times> int) list"

definition add_task :: "priority_queue \<Rightarrow> ref \<Rightarrow> int \<Rightarrow> priority_queue" where
  "add_task pq item priority = AList.update item priority pq"

fun min_task :: "ref \<times> int \<Rightarrow> priority_queue \<Rightarrow> ref \<times> int" where
  "min_task m [] = m"
| "min_task m (x # xs) = min_task (if snd x < snd m then x else m) xs"

definition pop_task :: "priority_queue \<Rightarrow> (ref \<times> priority_queue) option" where
  "pop_task pq =
     (case pq of
        [] \<Rightarrow> None
      | x # xs \<Rightarrow> (let item = fst (min_task x xs) in Some (item, AList.delete item pq)))"

definition relax_with_priority_update ::
    "ref \<Rightarrow> ref \<Rightarrow> ref \<Rightarrow> pyval \<Rightarrow> vertex list \<times> priority_queue
     \<Rightarrow> error + vertex list \<times> priority_queue" where
  "relax_with_priority_update source u v weight s =
     (case s of (h, pq) \<Rightarrow>
        case improves h source u v weight of
          Inl e \<Rightarrow> Inl e
        | Inr (b, d) \<Rightarrow>
            if b then
              (let h' = relaxed h source u v d in
               case dist_at h' v source of
                 Inl e \<Rightarrow> Inl e
               | Inr dv \<Rightarrow> Inr (h', add_task pq v dv))
            else Inr (h, pq))"

text \<open>The \<^verbatim>\<open>for v in u.get_connections()\<close> loop of \<^verbatim>\<open>dijkstra\<close>.\<close>

fun dijkstra_scan :: "ref \<Rightarrow> ref \<Rightarrow> ref list \<Rightarrow> vertex list \<times> priority_queue
    \<Rightarrow> error + vertex list \<times> priority_queue" where
  "dijkstra_scan source u [] s = Inr s"
| "dijkstra_scan source u (v # vs) s =
     (case get_weight (fst s ! u) v of
        Inl e \<Rightarrow> Inl e
      | Inr weight \<Rightarrow>
          (case relax_with_priority_update source u v weight s of
             Inl e \<Rightarrow> Inl e
           | Inr s' \<Rightarrow> dijkstra_scan source u vs s'))"

partial_function (option) dijkstra_loop :: "ref \<Rightarrow> vertex list \<Rightarrow> priority_queue
    \<Rightarrow> (error + vertex list) option" where
  "dijkstra_loop source h pq =
     (case pop_task pq of
        None \<Rightarrow> Some (Inr h)
      | Some (u, pq') \<Rightarrow>
          (case dijkstra_scan source u (get_connections (h ! u)) (h, pq') of
             Inl e \<Rightarrow> Some (Inl e)
           | Inr (h', pq'') \<Rightarrow> dijkstra_loop source h' pq''))"

declare dijkstra_loop.simps [code]

text \<open>The loop that loads every stored vertex into the queue.\<close>

fun load_tasks :: "graph \<Rightarrow> ref \<Rightarrow> pyval list \<Rightarrow> priority_queue \<Rightarrow> error + priority_queue" where
  "load_tasks g source [] pq = Inr pq"
| "load_tasks g source (v_key # keys) pq =
     (case get_vertex g v_key of
        Inl e \<Rightarrow> Inl e
      | Inr v \<Rightarrow>
          (case dist_at (objects g) v source of
             Inl e \<Rightarrow> Inl e
           | Inr d \<Rightarrow> load_tasks g source keys (add_task pq v d)))"

definition dijkstra :: "graph \<Rightarrow> pyval \<Rightarrow> (error + graph) option" where
  "dijkstra g source_key =
     (case get_vertex g source_key of
        Inl e \<Rightarrow> Some (Inl e)
      | Inr source \<Rightarrow>
          (let g1 = initialize_single_source g source in
           case load_tasks g1 source (get_vertices g1) [] of
             Inl e \<Rightarrow> Some (Inl e)
           | Inr pq \<Rightarrow>
               map_option (map_sum (\<lambda>e. e) (\<lambda>h. g\<lparr>objects := h\<rparr>))
                 (dijkstra_loop source (objects g1) pq)))"

section \<open>Building graphs and reading results\<close>

text \<open>
  A caller's construction calls. \<^verbatim>\<open>add_edge\<close> raises only while unpacking its arguments,
  before it has changed anything, so a caller that catches the exception goes on with the
  graph as it was.
\<close>

datatype op = AddVertex pyval | AddEdge "pyval list"

definition apply_op :: "op \<Rightarrow> graph \<Rightarrow> graph" where
  "apply_op c g =
     (case c of
        AddVertex key \<Rightarrow> add_vertex g key
      | AddEdge edge \<Rightarrow> (case add_edge g edge of Inl e \<Rightarrow> g | Inr g' \<Rightarrow> g'))"

definition build :: "op list \<Rightarrow> graph \<Rightarrow> graph" where
  "build cs g = fold apply_op cs g"

text \<open>The number of \<^verbatim>\<open>add_vertex\<close> calls of a construction that use a key already present.\<close>

fun readds :: "op list \<Rightarrow> graph \<Rightarrow> nat" where
  "readds [] g = 0"
| "readds (AddVertex key # cs) g =
     (if key \<in> set (get_vertices g) then 1 else 0) + readds cs (add_vertex g key)"
| "readds (AddEdge edge # cs) g = readds cs (apply_op (AddEdge edge) g)"

text \<open>\<^verbatim>\<open>v.dist[source]\<close> for every stored vertex \<open>v\<close>, by key, in dictionary order.\<close>

definition dists_from :: "graph \<Rightarrow> pyval \<Rightarrow> (pyval \<times> int option) list" where
  "dists_from g source_key =
     (case get_vertex g source_key of
        Inl e \<Rightarrow> []
      | Inr source \<Rightarrow> map (\<lambda>(key, v). (key, map_of (dist (objects g ! v)) source)) (vertices g))"

text \<open>The graph of the module's demonstration block.\<close>

definition demo_graph :: graph where
  "demo_graph =
     build (map (\<lambda>i. AddVertex (PInt i)) [0, 1, 2, 3, 4, 5] @
            map (\<lambda>(a, b, w). AddEdge [PInt a, PInt b, PInt w])
              [(0, 1, 5), (0, 5, 2), (1, 2, 4), (2, 3, 9), (3, 4, 7), (3, 5, 3),
               (4, 0, 1), (5, 4, 8), (5, 2, 1)])
       (Graph True)"

section \<open>Graphs as the construction calls leave them\<close>

text \<open>
  What holds of a graph built by \<^verbatim>\<open>add_vertex\<close> and \<^verbatim>\<open>add_edge\<close> in which no key was added
  to the graph twice by \<^verbatim>\<open>add_vertex\<close>: every neighbour is an object of the graph and no
  dictionary has a key twice (\<open>refs_ok\<close>); the objects are stored in the order of their
  creation, each under its own id (\<open>all_stored\<close>); the counter counts them.
\<close>

definition refs_ok :: "graph \<Rightarrow> bool" where
  "refs_ok g \<longleftrightarrow>
     (\<forall>v \<in> set (objects g). distinct (get_connections v) \<and>
        (\<forall>u \<in> set (get_connections v). u < length (objects g)))"

definition all_stored :: "graph \<Rightarrow> bool" where
  "all_stored g \<longleftrightarrow>
     map snd (vertices g) = [0..<length (objects g)] \<and>
     map fst (vertices g) = map vid (objects g) \<and>
     distinct (map vid (objects g))"

definition well_formed :: "graph \<Rightarrow> bool" where
  "well_formed g \<longleftrightarrow>
     refs_ok g \<and> all_stored g \<and> num_vertices g = int (length (objects g))"

text \<open>In an undirected graph every adjacency entry has its mirror.\<close>

definition mirrored :: "graph \<Rightarrow> bool" where
  "mirrored g \<longleftrightarrow>
     (\<forall>v < length (objects g). \<forall>(u, w) \<in> set (connected_to (objects g ! v)).
        map_of (connected_to (objects g ! u)) v = Some w)"

fun is_int :: "pyval \<Rightarrow> bool" where
  "is_int (PInt i) = True"
| "is_int _ = False"

fun nonneg :: "pyval \<Rightarrow> bool" where
  "nonneg (PInt i) = (0 \<le> i)"
| "nonneg _ = False"

definition int_weights :: "graph \<Rightarrow> bool" where
  "int_weights g \<longleftrightarrow> (\<forall>v \<in> set (objects g). \<forall>w \<in> snd ` set (connected_to v). is_int w)"

definition nonneg_weights :: "graph \<Rightarrow> bool" where
  "nonneg_weights g \<longleftrightarrow> (\<forall>v \<in> set (objects g). \<forall>w \<in> snd ` set (connected_to v). nonneg w)"

text \<open>
  Two graphs that differ at most in the colour, the predecessor and the distance maps of their
  vertices.
\<close>

definition same_topology :: "graph \<Rightarrow> graph \<Rightarrow> bool" where
  "same_topology g g' \<longleftrightarrow>
     vertices g' = vertices g \<and> directed g' = directed g \<and> num_vertices g' = num_vertices g \<and>
     map vid (objects g') = map vid (objects g) \<and>
     map connected_to (objects g') = map connected_to (objects g)"

text \<open>
  A vertex with the fields that a shortest-path run from \<open>source\<close> writes blanked out: the
  predecessor and the entry of \<open>source\<close> in the distance map (which keeps its place in the
  dictionary); \<open>blank\<close> blanks the colour as well, which the searches write.
\<close>

definition erase :: "ref \<Rightarrow> vertex \<Rightarrow> vertex" where
  "erase source v = v\<lparr>predecessor := None, dist := AList.update source 0 (dist v)\<rparr>"

definition blank :: "ref \<Rightarrow> vertex \<Rightarrow> vertex" where
  "blank source v = (erase source v)\<lparr>color := WHITE\<rparr>"

text \<open>
  \<open>follows h vs\<close>: the list \<open>vs\<close> is a predecessor chain, each vertex followed by its
  predecessor, down to a vertex that has none.
\<close>

fun follows :: "vertex list \<Rightarrow> ref list \<Rightarrow> bool" where
  "follows h [] = False"
| "follows h [v] = (predecessor (h ! v) = None)"
| "follows h (v # w # vs) = (predecessor (h ! v) = Some w \<and> follows h (w # vs))"

text \<open>The result of a run that returned; the graph itself where it did not.\<close>

definition returned :: "graph \<Rightarrow> (error + graph) option \<Rightarrow> graph" where
  "returned g r = (case r of Some (Inr g') \<Rightarrow> g' | _ \<Rightarrow> g)"

subsection \<open>Example graphs\<close>

text \<open>An undirected graph with one edge from vertex 1 to itself.\<close>

definition loop_graph :: graph where
  "loop_graph = build [AddEdge [PInt 1, PInt 1, PInt 5]] (Graph False)"

text \<open>An undirected graph with the edge between 1 and 2 of weight 5.\<close>

definition pair_graph :: graph where
  "pair_graph = build [AddEdge [PInt 1, PInt 2, PInt 5]] (Graph False)"

text \<open>
  The edges 1 \<rightarrow> 2 \<rightarrow> 3, after which key 2 is added again: the first vertex of key 2 stays
  the neighbour of vertex 1 and keeps its edge to vertex 3, and is no longer stored.
\<close>

definition readded_graph :: graph where
  "readded_graph =
     build [AddEdge [PInt 1, PInt 2], AddEdge [PInt 2, PInt 3], AddVertex (PInt 2)] (Graph True)"




text \<open>The adjacency entry \<^verbatim>\<open>v.connected_to[u]\<close>, if there is one.\<close>

definition adj :: "graph \<Rightarrow> ref \<Rightarrow> ref \<Rightarrow> pyval option" where
  "adj g v = map_of (connected_to (objects g ! v))"

text \<open>The counter less the number of stored vertices.\<close>

definition gap :: "graph \<Rightarrow> int" where
  "gap g = num_vertices g - int (length (vertices g))"

text \<open>The demonstration graph after each of the four algorithms, run from key 0.\<close>

definition demo_bfs :: graph where
  "demo_bfs = returned demo_graph (bfs demo_graph (PInt 0))"

definition demo_dfs :: graph where
  "demo_dfs = (case dfs demo_graph of Some (g, printed) \<Rightarrow> g | None \<Rightarrow> demo_graph)"

definition demo_dijkstra :: graph where
  "demo_dijkstra = returned demo_graph (dijkstra demo_graph (PInt 0))"

definition demo_bellman_ford :: graph where
  "demo_bellman_ford = returned demo_graph (Some (bellman_ford demo_graph (PInt 0)))"

text \<open>The graph \<open>readded_graph\<close> after \<^verbatim>\<open>bfs(1)\<close>.\<close>

definition readded_after :: graph where
  "readded_after = returned readded_graph (bfs readded_graph (PInt 1))"

text \<open>
  Three stored vertices and a counter of 4: the edge 1 \<rightarrow> 2, key 2 added again, then the edges
  3 \<rightarrow> 2 and 2 \<rightarrow> 1 to and from the new vertex of key 2. \<open>counted_after\<close> is this graph after
  \<^verbatim>\<open>bfs(3)\<close>, which has left the replaced vertex of key 2 the distance 3.
\<close>

definition counted_graph :: graph where
  "counted_graph =
     build [AddEdge [PInt 1, PInt 2], AddVertex (PInt 2), AddEdge [PInt 3, PInt 2],
            AddEdge [PInt 2, PInt 1]] (Graph True)"

definition counted_after :: graph where
  "counted_after = returned counted_graph (bfs counted_graph (PInt 3))"

section \<open>Walks, costs and shortest distances\<close>

text \<open>
  The weighted edges of a graph, as \<^verbatim>\<open>get_edges\<close> lists them, with the weights read as
  integers (a weight that is no integer reads as 0; the statements below assume there is none).
\<close>

type_synonym edge = "ref \<times> ref \<times> int"

fun int_of :: "pyval \<Rightarrow> int" where
  "int_of (PInt i) = i"
| "int_of _ = 0"

definition edges :: "graph \<Rightarrow> edge list" where
  "edges g = map (\<lambda>(u, v, w). (u, v, int_of w)) (get_edges g)"

text \<open>\<open>walk E u p v\<close>: the edges \<open>p\<close>, all from \<open>E\<close>, lead from \<open>u\<close> to \<open>v\<close>, each starting where the one before ends.\<close>

fun walk :: "edge list \<Rightarrow> ref \<Rightarrow> edge list \<Rightarrow> ref \<Rightarrow> bool" where
  "walk E u [] v = (u = v)"
| "walk E u (e # p) v = (e \<in> set E \<and> fst e = u \<and> walk E (fst (snd e)) p v)"

definition cost :: "edge list \<Rightarrow> int" where
  "cost p = sum_list (map (\<lambda>e. snd (snd e)) p)"

definition negative_cycle :: "edge list \<Rightarrow> bool" where
  "negative_cycle E \<longleftrightarrow> (\<exists>v p. p \<noteq> [] \<and> walk E v p v \<and> cost p < 0)"


text \<open>
  What \<^verbatim>\<open>initialize_single_source\<close> writes: 0 at the source and \<^verbatim>\<open>sys.maxsize\<close>, an integer
  like any other, everywhere else. \<open>reached n E f0 v x\<close>: some walk ends at \<open>v\<close> whose cost,
  added to the initial value \<open>f0\<close> of the vertex where it starts, is \<open>x\<close>; \<open>least\<close>: \<open>x\<close> is the
  least such sum.
\<close>

definition start_cost :: "ref \<Rightarrow> ref \<Rightarrow> int" where
  "start_cost s u = (if u = s then 0 else maxsize)"

definition reached :: "nat \<Rightarrow> edge list \<Rightarrow> (ref \<Rightarrow> int) \<Rightarrow> ref \<Rightarrow> int \<Rightarrow> bool" where
  "reached n E f0 v x \<longleftrightarrow> (\<exists>u p. u < n \<and> walk E u p v \<and> x = f0 u + cost p)"

definition least :: "nat \<Rightarrow> edge list \<Rightarrow> (ref \<Rightarrow> int) \<Rightarrow> ref \<Rightarrow> int \<Rightarrow> bool" where
  "least n E f0 v x \<longleftrightarrow> reached n E f0 v x \<and> (\<forall>y. reached n E f0 v y \<longrightarrow> x \<le> y)"

subsection \<open>The relaxations on a labelling\<close>

text \<open>
  The distances \<^verbatim>\<open>v.dist[source]\<close> of all vertices as one function \<open>f\<close> (\<open>dists\<close>), and what
  \<^verbatim>\<open>relax\<close>, a pass over all edges and \<open>k\<close> passes do to it.
\<close>

definition dists :: "ref \<Rightarrow> vertex list \<Rightarrow> (ref \<Rightarrow> int) \<Rightarrow> bool" where
  "dists s h f \<longleftrightarrow> (\<forall>v < length h. map_of (dist (h ! v)) s = Some (f v))"

definition relax_f :: "edge \<Rightarrow> (ref \<Rightarrow> int) \<Rightarrow> (ref \<Rightarrow> int)" where
  "relax_f e f = (if f (fst (snd e)) > f (fst e) + snd (snd e)
                  then f(fst (snd e) := f (fst e) + snd (snd e)) else f)"

fun passes_f :: "nat \<Rightarrow> edge list \<Rightarrow> (ref \<Rightarrow> int) \<Rightarrow> (ref \<Rightarrow> int)" where
  "passes_f 0 E f = f"
| "passes_f (Suc k) E f = passes_f k E (fold relax_f E f)"

text \<open>No edge admits a relaxation.\<close>

definition settled :: "edge list \<Rightarrow> (ref \<Rightarrow> int) \<Rightarrow> bool" where
  "settled E f \<longleftrightarrow> (\<forall>e \<in> set E. f (fst (snd e)) \<le> f (fst e) + snd (snd e))"

text \<open>The edges stay among the first \<open>n\<close> references; the vertices a walk visits.\<close>

definition within :: "nat \<Rightarrow> edge list \<Rightarrow> bool" where
  "within n E \<longleftrightarrow> (\<forall>e \<in> set E. fst e < n \<and> fst (snd e) < n)"

definition verts :: "ref \<Rightarrow> edge list \<Rightarrow> ref list" where
  "verts u p = u # map (\<lambda>e. fst (snd e)) p"

text \<open>Edges as \<^verbatim>\<open>get_edges\<close> lists them, with vertices among the first \<open>n\<close> and integer weights.\<close>

definition edges_ok :: "nat \<Rightarrow> (ref \<times> ref \<times> pyval) list \<Rightarrow> bool" where
  "edges_ok n es \<longleftrightarrow> (\<forall>e \<in> set es. fst e < n \<and> fst (snd e) < n \<and> is_int (snd (snd e)))"

text \<open>An edge of \<^verbatim>\<open>get_edges\<close> with its weight read as an integer.\<close>

definition read :: "ref \<times> ref \<times> pyval \<Rightarrow> edge" where
  "read e = (fst e, fst (snd e), int_of (snd (snd e)))"

subsection \<open>Dijkstra's loop on a labelling and a queue\<close>

text \<open>One priority-aware relaxation of the edge from \<open>u\<close> on a labelling and a queue.\<close>

definition relax_q :: "ref \<Rightarrow> ref \<times> int \<Rightarrow> (ref \<Rightarrow> int) \<times> priority_queue
    \<Rightarrow> (ref \<Rightarrow> int) \<times> priority_queue" where
  "relax_q u e fq =
     (case fq of (f, pq) \<Rightarrow>
        if f (fst e) > f u + snd e
        then (f(fst e := f u + snd e), add_task pq (fst e) (f u + snd e))
        else (f, pq))"

text \<open>
  The state of Dijkstra's loop between two extractions (\<open>queue_inv\<close>) and while the edges of
  the extracted vertex \<open>u\<close>, of label \<open>c\<close>, are relaxed (\<open>scan_inv\<close>).
\<close>

definition queue_inv :: "nat \<Rightarrow> edge list \<Rightarrow> (ref \<Rightarrow> int) \<Rightarrow> (ref \<Rightarrow> int) \<times> priority_queue \<Rightarrow> bool" where
  "queue_inv n E f0 fq \<longleftrightarrow>
     (case fq of (f, pq) \<Rightarrow>
        distinct (map fst pq) \<and> (\<forall>x \<in> set pq. fst x < n \<and> snd x = f (fst x)) \<and>
        (\<forall>v < n. reached n E f0 v (f v)) \<and> (\<forall>v. f v \<le> f0 v) \<and>
        (\<forall>e \<in> set E. fst e \<notin> fst ` set pq \<longrightarrow> f (fst (snd e)) \<le> f (fst e) + snd (snd e)) \<and>
        (\<forall>x < n. \<forall>v \<in> fst ` set pq. x \<notin> fst ` set pq \<longrightarrow> f x \<le> f v))"

definition scan_inv :: "nat \<Rightarrow> edge list \<Rightarrow> (ref \<Rightarrow> int) \<Rightarrow> ref \<Rightarrow> int
    \<Rightarrow> (ref \<Rightarrow> int) \<times> priority_queue \<Rightarrow> bool" where
  "scan_inv n E f0 u c fq \<longleftrightarrow>
     (case fq of (f, pq) \<Rightarrow>
        f u = c \<and> u < n \<and> u \<notin> fst ` set pq \<and>
        distinct (map fst pq) \<and> (\<forall>x \<in> set pq. fst x < n \<and> snd x = f (fst x)) \<and>
        (\<forall>v < n. reached n E f0 v (f v)) \<and> (\<forall>v. f v \<le> f0 v) \<and>
        (\<forall>e \<in> set E. fst e \<notin> fst ` set pq \<and> fst e \<noteq> u \<longrightarrow>
           f (fst (snd e)) \<le> f (fst e) + snd (snd e)) \<and>
        (\<forall>x < n. x \<notin> fst ` set pq \<longrightarrow> f x \<le> c) \<and>
        (\<forall>v \<in> fst ` set pq. c \<le> f v))"

text \<open>An entry of an adjacency map with its weight read as an integer.\<close>

definition read_entry :: "ref \<times> pyval \<Rightarrow> ref \<times> int" where
  "read_entry x = (fst x, int_of (snd x))"

section \<open>Routes and the state of a breadth-first search\<close>

text \<open>
  \<open>route h u vs\<close>: starting at \<open>u\<close>, the vertices \<open>vs\<close> are visited in this order along edges of
  the adjacency maps of \<open>h\<close>. \<open>reach h s k v\<close>: some route of \<open>k\<close> edges leads from \<open>s\<close> to \<open>v\<close>.
\<close>

fun route :: "vertex list \<Rightarrow> ref \<Rightarrow> ref list \<Rightarrow> bool" where
  "route h u [] = True"
| "route h u (v # vs) = (v \<in> set (get_connections (h ! u)) \<and> route h v vs)"

definition reach :: "vertex list \<Rightarrow> ref \<Rightarrow> nat \<Rightarrow> ref \<Rightarrow> bool" where
  "reach h s k v \<longleftrightarrow> (\<exists>vs. length vs = k \<and> route h s vs \<and> last (s # vs) = v)"

text \<open>The writes of \<^verbatim>\<open>bfs\<close> to a vertex it discovers, and to a vertex it has finished.\<close>

definition discover :: "ref \<Rightarrow> ref \<Rightarrow> ref \<Rightarrow> int \<Rightarrow> vertex list \<Rightarrow> vertex list" where
  "discover s u v d h =
     h[v := (h ! v)\<lparr>color := GRAY, dist := AList.update s d (dist (h ! v)),
                    predecessor := Some u\<rparr>]"

definition blacken :: "ref \<Rightarrow> vertex list \<Rightarrow> vertex list" where
  "blacken u h = h[u := (h ! u)\<lparr>color := BLACK\<rparr>]"

text \<open>Every neighbour is an object.\<close>

definition closed :: "vertex list \<Rightarrow> bool" where
  "closed h \<longleftrightarrow> (\<forall>u < length h. \<forall>v \<in> set (get_connections (h ! u)). v < length h)"

text \<open>
  The state of the search from \<open>s\<close> on the objects \<open>h\<close>, which were \<open>h0\<close> when it began, with the
  distances as a labelling \<open>f\<close> (\<open>marks\<close>): a vertex that is not white is \<open>found\<close>, by a route
  of \<open>f v\<close> edges whose last edge comes from its predecessor; a white vertex is as the reset
  left it; a black vertex is \<open>finished\<close>, none of its neighbours is white or more than one
  edge farther.
\<close>

definition found :: "vertex list \<Rightarrow> ref \<Rightarrow> vertex list \<Rightarrow> (ref \<Rightarrow> int) \<Rightarrow> ref \<Rightarrow> bool" where
  "found h0 s h f v \<longleftrightarrow>
     0 \<le> f v \<and> reach h0 s (nat (f v)) v \<and>
     (v \<noteq> s \<longrightarrow>
        (\<exists>p < length h0. predecessor (h ! v) = Some p \<and> color (h ! p) \<noteq> WHITE \<and>
           v \<in> set (get_connections (h0 ! p)) \<and> f v = f p + 1))"

definition finished :: "vertex list \<Rightarrow> vertex list \<Rightarrow> (ref \<Rightarrow> int) \<Rightarrow> ref \<Rightarrow> bool" where
  "finished h0 h f u \<longleftrightarrow>
     (\<forall>v \<in> set (get_connections (h0 ! u)). color (h ! v) \<noteq> WHITE \<and> f v \<le> f u + 1)"

definition marks :: "vertex list \<Rightarrow> ref \<Rightarrow> vertex list \<Rightarrow> (ref \<Rightarrow> int) \<Rightarrow> bool" where
  "marks h0 s h f \<longleftrightarrow>
     map connected_to h = map connected_to h0 \<and> dists s h f \<and>
     s < length h0 \<and> color (h ! s) \<noteq> WHITE \<and> f s = 0 \<and> predecessor (h ! s) = None \<and>
     (\<forall>v < length h0. color (h ! v) \<noteq> WHITE \<longrightarrow> found h0 s h f v) \<and>
     (\<forall>v < length h0. color (h ! v) = WHITE \<longrightarrow> f v = maxsize \<and> predecessor (h ! v) = None) \<and>
     (\<forall>u < length h0. color (h ! u) = BLACK \<longrightarrow> finished h0 h f u)"

text \<open>
  The state between two iterations of the \<^verbatim>\<open>while\<close> loop, with the queue \<open>q\<close> (\<open>bfs_inv\<close>): the
  queue holds the gray vertices, each once, in the order of their distances, which differ by
  one at most, and no black vertex is farther than a queued one. \<open>bfs_scan_inv\<close> is the state
  inside the \<^verbatim>\<open>for\<close> loop over the neighbours of \<open>u\<close>, of which \<open>ds\<close> are done; \<open>B\<close> are vertices
  that were black when \<open>u\<close> left the queue.
\<close>

definition grays :: "vertex list \<Rightarrow> ref set" where
  "grays h = {v. v < length h \<and> color (h ! v) = GRAY}"

definition blacks :: "vertex list \<Rightarrow> ref set" where
  "blacks h = {v. v < length h \<and> color (h ! v) = BLACK}"

definition bfs_inv :: "vertex list \<Rightarrow> ref \<Rightarrow> ref list \<Rightarrow> vertex list \<Rightarrow> (ref \<Rightarrow> int) \<Rightarrow> bool" where
  "bfs_inv h0 s q h f \<longleftrightarrow>
     marks h0 s h f \<and> distinct q \<and> set q = grays h \<and> sorted (map f q) \<and>
     (\<forall>x \<in> set q. f x \<le> f (hd q) + 1) \<and>
     (\<forall>b \<in> blacks h. \<forall>x \<in> set q. f b \<le> f x)"

definition bfs_scan_inv :: "vertex list \<Rightarrow> ref \<Rightarrow> ref \<Rightarrow> ref set \<Rightarrow> ref list \<Rightarrow> ref list
    \<Rightarrow> vertex list \<Rightarrow> (ref \<Rightarrow> int) \<Rightarrow> bool" where
  "bfs_scan_inv h0 s u B ds q h f \<longleftrightarrow>
     marks h0 s h f \<and> u \<in> grays h \<and> distinct q \<and> set q = grays h - {u} \<and>
     sorted (map f q) \<and> (\<forall>x \<in> set q. f u \<le> f x \<and> f x \<le> f u + 1) \<and>
     (\<forall>b \<in> blacks h. f b \<le> f u) \<and> B \<subseteq> blacks h \<and>
     (\<forall>v \<in> set ds. color (h ! v) \<noteq> WHITE \<and> f v \<le> f u + 1)"

section \<open>The demonstration graph\<close>

lemma demo_graph_eq:
  "demo_graph =
     \<lparr>objects =
        [\<lparr>vid = PInt 0, connected_to = [(1, PInt 5), (5, PInt 2)], dist = [], color = WHITE,
            predecessor = None\<rparr>,
         \<lparr>vid = PInt 1, connected_to = [(2, PInt 4)], dist = [], color = WHITE,
            predecessor = None\<rparr>,
         \<lparr>vid = PInt 2, connected_to = [(3, PInt 9)], dist = [], color = WHITE,
            predecessor = None\<rparr>,
         \<lparr>vid = PInt 3, connected_to = [(4, PInt 7), (5, PInt 3)], dist = [], color = WHITE,
            predecessor = None\<rparr>,
         \<lparr>vid = PInt 4, connected_to = [(0, PInt 1)], dist = [], color = WHITE,
            predecessor = None\<rparr>,
         \<lparr>vid = PInt 5, connected_to = [(4, PInt 8), (2, PInt 1)], dist = [], color = WHITE,
            predecessor = None\<rparr>],
      vertices = [(PInt 0, 0), (PInt 1, 1), (PInt 2, 2), (PInt 3, 3), (PInt 4, 4), (PInt 5, 5)],
      num_vertices = 6, directed = True\<rparr>"
  by code_simp

text \<open>
  C4, as the code behaves: on the demonstration graph \<^verbatim>\<open>dijkstra(0)\<close> returns and leaves the
  distances 0:0, 1:5, 2:3, 3:12, 4:10, 5:2 from vertex 0.
\<close>

theorem C4_dijkstra_demo:
  "map_option (map_sum (\<lambda>e. e) (\<lambda>g. dists_from g (PInt 0))) (dijkstra demo_graph (PInt 0)) =
     Some (Inr [(PInt 0, Some 0), (PInt 1, Some 5), (PInt 2, Some 3), (PInt 3, Some 12),
                (PInt 4, Some 10), (PInt 5, Some 2)])"
  by code_simp

text \<open>
  C4, as the spec states it: the distances 3:5 and 4:8 are not what \<^verbatim>\<open>dijkstra(0)\<close> leaves
  (the only edge into vertex 3 is the one of weight 9 from vertex 2).
\<close>

theorem C4_counterexample:
  "map_option (map_sum (\<lambda>e. e) (\<lambda>g. dists_from g (PInt 0))) (dijkstra demo_graph (PInt 0)) \<noteq>
     Some (Inr [(PInt 0, Some 0), (PInt 1, Some 5), (PInt 2, Some 3), (PInt 3, Some 5),
                (PInt 4, Some 8), (PInt 5, Some 2)])"
  by code_simp

section \<open>\<^verbatim>\<open>add_edges\<close>\<close>

text \<open>
  C6 at the list \<^verbatim>\<open>[(1, 2)]\<close>: \<^verbatim>\<open>add_edges\<close> raises \<^verbatim>\<open>ValueError\<close> and adds nothing, where
  \<^verbatim>\<open>add_edge(1, 2)\<close> adds the edge.
\<close>

theorem C6_add_edges_raises:
  "add_edges (Graph True) [PTuple [PInt 1, PInt 2]] = Inl ValueError \<and>
   map_sum (\<lambda>e. e) get_edges (add_edge (Graph True) [PInt 1, PInt 2]) = Inr [(0, 1, PInt 0)]"
  by code_simp

section \<open>Association lists\<close>

lemma length_alist_update:
  "length (AList.update k v al) = (if k \<in> fst ` set al then length al else Suc (length al))"
  by (induction al) auto

lemma alist_update_fresh: "k \<notin> fst ` set al \<Longrightarrow> AList.update k v al = al @ [(k, v)]"
  by (induction al) auto

lemma set_alist_update_distinct:
  "distinct (map fst al) \<Longrightarrow>
     set (AList.update k v al) = insert (k, v) {p \<in> set al. fst p \<noteq> k}"
  by (induction al) (auto simp: rev_image_eqI)

lemma map_of_iff_set: "distinct (map fst al) \<Longrightarrow> (k, v) \<in> set al \<longleftrightarrow> map_of al k = Some v"
  by (auto dest: map_of_SomeD)

section \<open>Construction keeps graphs well formed\<close>

lemma well_formed_Graph: "well_formed (Graph d)"
  by (simp add: well_formed_def refs_ok_def all_stored_def Graph_def)

lemma well_formed_add_vertex:
  assumes "well_formed g" and "key \<notin> set (get_vertices g)"
  shows "well_formed (add_vertex g key)"
proof -
  from assms(2) have fresh: "key \<notin> fst ` set (vertices g)"
    by (simp add: get_vertices_def)
  from assms(1) have st: "map snd (vertices g) = [0..<length (objects g)]"
      "map fst (vertices g) = map vid (objects g)" "distinct (map vid (objects g))"
    and ro: "refs_ok g" and nv: "num_vertices g = int (length (objects g))"
    by (simp_all add: well_formed_def all_stored_def)
  have "refs_ok (add_vertex g key)"
    using ro by (auto simp: refs_ok_def add_vertex_def Vertex_def get_connections_def less_Suc_eq)
  moreover have "all_stored (add_vertex g key)"
    using st fresh assms(2)
    by (simp add: all_stored_def add_vertex_def alist_update_fresh Vertex_def get_vertices_def)
  moreover have "num_vertices (add_vertex g key) = int (length (objects (add_vertex g key)))"
    using nv by (simp add: add_vertex_def)
  ultimately show ?thesis by (simp add: well_formed_def)
qed

lemma get_vertex_in_range:
  assumes "all_stored g" and "vertices_at g key = Inr a"
  shows "a < length (objects g)"
proof -
  from assms(2) have "(key, a) \<in> set (vertices g)"
    by (auto simp: vertices_at_def split: option.splits dest: map_of_SomeD)
  then have "a \<in> set (map snd (vertices g))" by force
  with assms(1) show ?thesis by (simp add: all_stored_def)
qed

lemma neighbour_added_fields:
  "neighbour_added g k1 k2 w = Inr g' \<Longrightarrow>
     vertices g' = vertices g \<and> num_vertices g' = num_vertices g \<and> directed g' = directed g"
  by (auto simp: neighbour_added_def split: sum.splits)

lemma well_formed_neighbour_added:
  assumes wf: "well_formed g" and na: "neighbour_added g k1 k2 w = Inr g'"
  shows "well_formed g'"
proof -
  from na obtain a b where a: "vertices_at g k1 = Inr a" and b: "vertices_at g k2 = Inr b"
    and g': "g' = g\<lparr>objects := (objects g)[a := add_neighbour (objects g ! a) b w]\<rparr>"
    by (auto simp: neighbour_added_def split: sum.splits)
  from wf have st: "all_stored g" and ro: "refs_ok g"
    and nv: "num_vertices g = int (length (objects g))"
    by (simp_all add: well_formed_def)
  from st a b have ra: "a < length (objects g)" and rb: "b < length (objects g)"
    by (auto dest: get_vertex_in_range)
  have vid: "map vid (objects g') = map vid (objects g)"
    by (simp add: g' map_update add_neighbour_def list_update_same_conv ra)
  have "all_stored g'"
    using st vid by (simp add: all_stored_def) (simp add: g')
  moreover have "refs_ok g'"
  proof -
    have old: "distinct (get_connections (objects g ! a))"
        "\<forall>u \<in> set (get_connections (objects g ! a)). u < length (objects g)"
      using ro ra by (auto simp: refs_ok_def)
    have new: "distinct (get_connections (add_neighbour (objects g ! a) b w)) \<and>
        (\<forall>u \<in> set (get_connections (add_neighbour (objects g ! a) b w)). u < length (objects g))"
      using old rb
      by (auto simp: get_connections_def add_neighbour_def distinct_update update_keys)
    show ?thesis
      unfolding refs_ok_def g'
    proof (intro ballI)
      fix v assume "v \<in> set (objects (g\<lparr>objects := (objects g)[a := add_neighbour (objects g ! a) b w]\<rparr>))"
      then have "v \<in> set (objects g) \<or> v = add_neighbour (objects g ! a) b w"
        by (auto dest: set_update_subset_insert [THEN subsetD])
      then show "distinct (get_connections v) \<and>
          (\<forall>u\<in>set (get_connections v).
             u < length (objects (g\<lparr>objects := (objects g)[a := add_neighbour (objects g ! a) b w]\<rparr>)))"
        using ro new by (auto simp: refs_ok_def)
    qed
  qed
  moreover have "num_vertices g' = int (length (objects g'))"
    using nv by (simp add: g')
  ultimately show ?thesis by (simp add: well_formed_def)
qed

lemma well_formed_add_edge:
  assumes wf: "well_formed g" and ae: "add_edge g edge = Inr g'"
  shows "well_formed g'"
proof -
  from ae obtain k1 k2 cost where e: "edge = k1 # k2 # cost"
    by (auto simp: add_edge_def split: list.splits)
  define g1 where "g1 = (if k1 \<notin> set (get_vertices g) then add_vertex g k1 else g)"
  define g2 where "g2 = (if k2 \<notin> set (get_vertices g1) then add_vertex g1 k2 else g1)"
  have 1: "well_formed g1" using wf by (simp add: g1_def well_formed_add_vertex)
  then have 2: "well_formed g2" by (simp add: g2_def well_formed_add_vertex)
  from ae e obtain g3 w where 3: "neighbour_added g2 k1 k2 w = Inr g3"
    and 4: "g' = g3 \<or> neighbour_added g3 k2 k1 w = Inr g'"
    by (auto simp: add_edge_def Let_def g1_def g2_def split: sum.splits if_splits)
  from 2 3 have "well_formed g3" by (rule well_formed_neighbour_added)
  with 4 show ?thesis by (auto dest: well_formed_neighbour_added)
qed

lemma well_formed_apply_AddEdge: "well_formed g \<Longrightarrow> well_formed (apply_op (AddEdge edge) g)"
  by (auto simp: apply_op_def split: sum.splits dest: well_formed_add_edge)

lemma well_formed_build:
  "well_formed g \<Longrightarrow> readds cs g = 0 \<Longrightarrow> well_formed (build cs g)"
proof (induction cs g rule: readds.induct)
  case (1 g)
  then show ?case by (simp add: build_def)
next
  case (2 key cs g)
  then show ?case
    by (simp add: build_def apply_op_def well_formed_add_vertex split: if_splits)
next
  case (3 edge cs g)
  then show ?case by (simp add: build_def well_formed_apply_AddEdge)
qed

section \<open>The vertex counter\<close>

lemma gap_add_vertex:
  "gap (add_vertex g key) = gap g + (if key \<in> set (get_vertices g) then 1 else 0)"
  by (simp add: gap_def add_vertex_def get_vertices_def length_alist_update)

lemma gap_neighbour_added: "neighbour_added g k1 k2 w = Inr g' \<Longrightarrow> gap g' = gap g"
  by (simp add: gap_def neighbour_added_fields)

lemma gap_add_edge:
  assumes "add_edge g edge = Inr g'"
  shows "gap g' = gap g"
proof -
  from assms obtain k1 k2 cost where e: "edge = k1 # k2 # cost"
    by (auto simp: add_edge_def split: list.splits)
  define g1 where "g1 = (if k1 \<notin> set (get_vertices g) then add_vertex g k1 else g)"
  define g2 where "g2 = (if k2 \<notin> set (get_vertices g1) then add_vertex g1 k2 else g1)"
  have 1: "gap g1 = gap g" by (simp add: g1_def gap_add_vertex)
  have 2: "gap g2 = gap g1" by (simp add: g2_def gap_add_vertex)
  from assms e obtain g3 w where 3: "neighbour_added g2 k1 k2 w = Inr g3"
    and 4: "g' = g3 \<or> neighbour_added g3 k2 k1 w = Inr g'"
    by (auto simp: add_edge_def Let_def g1_def g2_def split: sum.splits if_splits)
  from 3 have "gap g3 = gap g2" by (rule gap_neighbour_added)
  moreover from 4 have "gap g' = gap g3" by (auto dest: gap_neighbour_added)
  ultimately show ?thesis using 1 2 by simp
qed

lemma gap_apply_AddEdge: "gap (apply_op (AddEdge edge) g) = gap g"
  by (auto simp: apply_op_def gap_add_edge split: sum.splits)

lemma gap_build: "gap (build cs g) = gap g + int (readds cs g)"
proof (induction cs g rule: readds.induct)
  case (1 g)
  show ?case by (simp add: build_def)
next
  case (2 key cs g)
  then show ?case by (simp add: build_def apply_op_def gap_add_vertex)
next
  case (3 edge cs g)
  then show ?case by (simp add: build_def gap_apply_AddEdge)
qed

lemma add_vertex_existing:
  assumes "key \<in> set (get_vertices g)"
  shows "num_vertices (add_vertex g key) = num_vertices g + 1"
    and "length (vertices (add_vertex g key)) = length (vertices g)"
    and "get_vertex (add_vertex g key) key = Inr (length (objects g))"
    and "objects (add_vertex g key) ! length (objects g) = Vertex key"
  using assms
  by (simp_all add: add_vertex_def get_vertices_def length_alist_update get_vertex_def update_conv')

lemma counter_build:
  "num_vertices (build cs (Graph d)) =
     int (length (vertices (build cs (Graph d)))) + int (readds cs (Graph d))"
proof -
  have "gap (build cs (Graph d)) = int (readds cs (Graph d))"
    by (simp add: gap_build) (simp add: gap_def Graph_def)
  then show ?thesis by (simp add: gap_def)
qed

text \<open>
  C10. For a graph built from the empty graph by construction calls, the counter
  \<^verbatim>\<open>num_vertices\<close> is the number of stored vertices plus the number of \<^verbatim>\<open>add_vertex\<close> calls that
  used a key already present (\<^verbatim>\<open>add_edge\<close> creates a vertex only for an absent key), so the
  two are equal exactly when there was no such call. On a key already present \<^verbatim>\<open>add_vertex\<close>
  stores a fresh vertex under it (no neighbours, no distances, white, no predecessor), leaves
  the number of stored vertices as it was and still increments the counter. \<^verbatim>\<open>bellman_ford\<close>
  relaxes all edges \<^verbatim>\<open>num_vertices - 1\<close> times before its final scan, whatever the number of
  stored vertices, and the result shows it: on \<open>counted_after\<close>, with 3 stored vertices and a
  counter of 4, the third pass brings the replaced vertex of key 2 to its distance and the run
  returns; with the counter set to the number of stored vertices the same run makes two
  passes and its final scan raises \<^verbatim>\<open>ValueError\<close>.
\<close>

theorem C10_counter:
  "num_vertices (build cs (Graph d)) =
     int (length (vertices (build cs (Graph d)))) + int (readds cs (Graph d)) \<and>
   (num_vertices (build cs (Graph d)) = int (length (vertices (build cs (Graph d))))
      \<longleftrightarrow> readds cs (Graph d) = 0) \<and>
   (key \<in> set (get_vertices g) \<longrightarrow>
      num_vertices (add_vertex g key) = num_vertices g + 1 \<and>
      length (vertices (add_vertex g key)) = length (vertices g) \<and>
      get_vertex (add_vertex g key) key = Inr (length (objects g)) \<and>
      objects (add_vertex g key) ! length (objects g) = Vertex key) \<and>
   (get_vertex g key = Inr s \<longrightarrow>
      bellman_ford g key =
        (case passes (nat (num_vertices g - 1)) s (initialize_single_source g s) of
           Inl e \<Rightarrow> Inl e
         | Inr g' \<Rightarrow>
             (case final_scan s (get_edges g') (objects g') of
                Inl e \<Rightarrow> Inl e
              | Inr u \<Rightarrow> Inr g'))) \<and>
   num_vertices counted_after = 4 \<and> length (vertices counted_after) = 3 \<and>
   map_sum (\<lambda>e. e) (\<lambda>g. map (\<lambda>v. map_of (dist v) 3) (objects g))
       (bellman_ford counted_after (PInt 3)) =
     Inr [Some 0, Some 0, Some 0, Some 0] \<and>
   bellman_ford (counted_after\<lparr>num_vertices := int (length (vertices counted_after))\<rparr>) (PInt 3) =
     Inl ValueError"
proof -
  have 1: "num_vertices (build cs (Graph d)) = int (length (vertices (build cs (Graph d))))
      \<longleftrightarrow> readds cs (Graph d) = 0"
    by (simp add: counter_build)
  have 2: "bellman_ford g key =
        (case passes (nat (num_vertices g - 1)) s (initialize_single_source g s) of
           Inl e \<Rightarrow> Inl e
         | Inr g' \<Rightarrow>
             (case final_scan s (get_edges g') (objects g') of
                Inl e \<Rightarrow> Inl e
              | Inr u \<Rightarrow> Inr g'))" if "get_vertex g key = Inr s"
    using that by (simp add: bellman_ford_def bellman_ford_passes_def)
  have 3: "num_vertices counted_after = 4" by code_simp
  have 4: "length (vertices counted_after) = 3" by code_simp
  have 5: "map_sum (\<lambda>e. e) (\<lambda>g. map (\<lambda>v. map_of (dist v) 3) (objects g))
       (bellman_ford counted_after (PInt 3)) = Inr [Some 0, Some 0, Some 0, Some 0]"
    by code_simp
  have 6: "bellman_ford (counted_after\<lparr>num_vertices := int (length (vertices counted_after))\<rparr>)
      (PInt 3) = Inl ValueError"
    by code_simp
  from 1 2 3 4 5 6 show ?thesis
    by (simp add: add_vertex_existing counter_build)
qed

text \<open>
  C10 at the calls \<^verbatim>\<open>add_edge(1, 2)\<close>, \<^verbatim>\<open>add_vertex(2)\<close>, and at \<^verbatim>\<open>bellman_ford(3)\<close> on
  \<open>counted_after\<close>, which makes the three passes of its counter.
\<close>

theorem C10_counter_witness:
  "PInt 2 \<in> set (get_vertices (build [AddEdge [PInt 1, PInt 2]] (Graph True))) \<and>
   num_vertices (add_vertex (build [AddEdge [PInt 1, PInt 2]] (Graph True)) (PInt 2)) =
     num_vertices (build [AddEdge [PInt 1, PInt 2]] (Graph True)) + 1 \<and>
   length (vertices (add_vertex (build [AddEdge [PInt 1, PInt 2]] (Graph True)) (PInt 2))) =
     length (vertices (build [AddEdge [PInt 1, PInt 2]] (Graph True))) \<and>
   num_vertices (build [AddEdge [PInt 1, PInt 2], AddVertex (PInt 2)] (Graph True)) =
     int (length (vertices (build [AddEdge [PInt 1, PInt 2], AddVertex (PInt 2)] (Graph True)))) +
     int (readds [AddEdge [PInt 1, PInt 2], AddVertex (PInt 2)] (Graph True)) \<and>
   readds [AddEdge [PInt 1, PInt 2], AddVertex (PInt 2)] (Graph True) = 1 \<and>
   get_vertex counted_after (PInt 3) = Inr 3 \<and>
   bellman_ford counted_after (PInt 3) =
     (case passes 3 3 (initialize_single_source counted_after 3) of
        Inl e \<Rightarrow> Inl e
      | Inr g' \<Rightarrow>
          (case final_scan 3 (get_edges g') (objects g') of Inl e \<Rightarrow> Inl e | Inr u \<Rightarrow> Inr g')) \<and>
   (case passes 2 3 (initialize_single_source counted_after 3) of
      Inl e \<Rightarrow> Inl e
    | Inr g' \<Rightarrow> final_scan 3 (get_edges g') (objects g')) = Inl ValueError"
proof -
  have h: "PInt 2 \<in> set (get_vertices (build [AddEdge [PInt 1, PInt 2]] (Graph True)))"
    by code_simp
  have r: "readds [AddEdge [PInt 1, PInt 2], AddVertex (PInt 2)] (Graph True) = 1"
    by code_simp
  have s: "get_vertex counted_after (PInt 3) = Inr 3" by code_simp
  have n: "nat (num_vertices counted_after - 1) = 3" by code_simp
  have p: "(case passes 2 3 (initialize_single_source counted_after 3) of
      Inl e \<Rightarrow> Inl e
    | Inr g' \<Rightarrow> final_scan 3 (get_edges g') (objects g')) = Inl ValueError"
    by code_simp
  from C10_counter [where cs = "[AddEdge [PInt 1, PInt 2], AddVertex (PInt 2)]" and d = True
      and key = "PInt 2" and g = "build [AddEdge [PInt 1, PInt 2]] (Graph True)"] h
  have a: "num_vertices (add_vertex (build [AddEdge [PInt 1, PInt 2]] (Graph True)) (PInt 2)) =
     num_vertices (build [AddEdge [PInt 1, PInt 2]] (Graph True)) + 1 \<and>
   length (vertices (add_vertex (build [AddEdge [PInt 1, PInt 2]] (Graph True)) (PInt 2))) =
     length (vertices (build [AddEdge [PInt 1, PInt 2]] (Graph True))) \<and>
   num_vertices (build [AddEdge [PInt 1, PInt 2], AddVertex (PInt 2)] (Graph True)) =
     int (length (vertices (build [AddEdge [PInt 1, PInt 2], AddVertex (PInt 2)] (Graph True)))) +
     int (readds [AddEdge [PInt 1, PInt 2], AddVertex (PInt 2)] (Graph True))"
    by blast
  from C10_counter [where key = "PInt 3" and g = counted_after and s = 3] s n
  have b: "bellman_ford counted_after (PInt 3) =
     (case passes 3 3 (initialize_single_source counted_after 3) of
        Inl e \<Rightarrow> Inl e
      | Inr g' \<Rightarrow>
          (case final_scan 3 (get_edges g') (objects g') of Inl e \<Rightarrow> Inl e | Inr u \<Rightarrow> Inr g'))"
    by simp
  from h r s a b p show ?thesis by blast
qed
section \<open>Undirected graphs are mirrored\<close>

lemma entry_iff_adj:
  assumes "refs_ok g" and "v < length (objects g)"
  shows "(u, w) \<in> set (connected_to (objects g ! v)) \<longleftrightarrow> adj g v u = Some w"
proof -
  from assms have d: "distinct (map fst (connected_to (objects g ! v)))"
    by (simp add: refs_ok_def get_connections_def)
  show ?thesis unfolding adj_def by (rule map_of_iff_set [OF d])
qed

lemma mirrored_iff:
  assumes "refs_ok g"
  shows "mirrored g \<longleftrightarrow>
    (\<forall>v < length (objects g). \<forall>u w. adj g v u = Some w \<longrightarrow> adj g u v = Some w)"
proof -
  have "mirrored g \<longleftrightarrow>
    (\<forall>v < length (objects g). \<forall>u w. (u, w) \<in> set (connected_to (objects g ! v)) \<longrightarrow>
       adj g u v = Some w)"
    unfolding mirrored_def adj_def by auto
  then show ?thesis
    using entry_iff_adj [OF assms] by simp
qed

lemma adj_in_range:
  assumes "refs_ok g" and "v < length (objects g)" and "adj g v u = Some w"
  shows "u < length (objects g)"
proof -
  from assms(3) have "u \<in> set (get_connections (objects g ! v))"
    by (auto simp: adj_def get_connections_def dest: map_of_SomeD intro: rev_image_eqI)
  with assms(1,2) nth_mem [of v "objects g"] show ?thesis by (auto simp: refs_ok_def)
qed

lemma adj_add_vertex:
  "v < length (objects g) \<Longrightarrow> adj (add_vertex g key) v = adj g v"
  "adj (add_vertex g key) (length (objects g)) = Map.empty"
  by (simp_all add: adj_def add_vertex_def nth_append Vertex_def)

lemma mirrored_add_vertex:
  assumes "well_formed g" and "mirrored g" and "key \<notin> set (get_vertices g)"
  shows "mirrored (add_vertex g key)"
proof -
  from assms(1) have ro: "refs_ok g" by (simp add: well_formed_def)
  from assms(1,3) have "refs_ok (add_vertex g key)"
    using well_formed_add_vertex by (simp add: well_formed_def)
  moreover have "adj (add_vertex g key) u v = Some w"
    if "v < length (objects (add_vertex g key))" and "adj (add_vertex g key) v u = Some w" for v u w
  proof -
    from that(2) have "v \<noteq> length (objects g)"
      by (auto simp: adj_add_vertex(2))
    moreover from that(1) have "v < Suc (length (objects g))"
      by (simp add: add_vertex_def)
    ultimately have v: "v < length (objects g)" by simp
    with that have 1: "adj g v u = Some w" by (simp add: adj_add_vertex)
    with ro v have u: "u < length (objects g)" by (rule adj_in_range)
    from 1 v assms(2) ro have "adj g u v = Some w" by (simp add: mirrored_iff)
    with u show ?thesis by (simp add: adj_add_vertex)
  qed
  ultimately show ?thesis by (simp add: mirrored_iff)
qed

lemma adj_neighbour_added:
  assumes "neighbour_added g k1 k2 w = Inr g'" and "vertices_at g k1 = Inr a"
    and "vertices_at g k2 = Inr b" and "a < length (objects g)"
  shows "adj g' v = (if v = a then (adj g a)(b \<mapsto> w) else adj g v)"
proof -
  from assms(1-3)
  have g': "g' = g\<lparr>objects := (objects g)[a := add_neighbour (objects g ! a) b w]\<rparr>"
    by (simp add: neighbour_added_def)
  show ?thesis
    using assms(4) by (simp add: g' adj_def add_neighbour_def update_conv')
qed

lemma mirrored_add_edge:
  assumes wf: "well_formed g" and mi: "mirrored g" and und: "\<not> directed g"
    and ae: "add_edge g edge = Inr g'"
  shows "mirrored g' \<and> \<not> directed g'"
proof -
  from ae obtain k1 k2 cost where e: "edge = k1 # k2 # cost"
    by (auto simp: add_edge_def split: list.splits)
  define g1 where "g1 = (if k1 \<notin> set (get_vertices g) then add_vertex g k1 else g)"
  define g2 where "g2 = (if k2 \<notin> set (get_vertices g1) then add_vertex g1 k2 else g1)"
  have wf1: "well_formed g1" using wf by (simp add: g1_def well_formed_add_vertex)
  then have wf2: "well_formed g2" by (simp add: g2_def well_formed_add_vertex)
  have mi1: "mirrored g1" using wf mi by (simp add: g1_def mirrored_add_vertex)
  have mi2: "mirrored g2" using wf1 mi1 by (simp add: g2_def mirrored_add_vertex)
  have und2: "\<not> directed g2" using und by (simp add: g2_def g1_def add_vertex_def)
  from ae e obtain g3 w where 3: "neighbour_added g2 k1 k2 w = Inr g3"
    and 4: "directed g3 \<and> g' = g3 \<or> \<not> directed g3 \<and> neighbour_added g3 k2 k1 w = Inr g'"
    by (auto simp: add_edge_def Let_def g1_def g2_def split: sum.splits if_splits)
  from 3 und2 have und3: "\<not> directed g3" by (simp add: neighbour_added_fields)
  with 4 have 5: "neighbour_added g3 k2 k1 w = Inr g'" by simp
  from 3 obtain a b where a: "vertices_at g2 k1 = Inr a" and b: "vertices_at g2 k2 = Inr b"
    by (auto simp: neighbour_added_def split: sum.splits)
  from wf2 a b have ra: "a < length (objects g2)" and rb: "b < length (objects g2)"
    by (auto simp: well_formed_def dest: get_vertex_in_range)
  from 3 have v3: "vertices g3 = vertices g2" by (simp add: neighbour_added_fields)
  from 3 have l3: "length (objects g3) = length (objects g2)"
    by (auto simp: neighbour_added_def split: sum.splits)
  from 5 have l': "length (objects g') = length (objects g3)"
    by (auto simp: neighbour_added_def split: sum.splits)
  have a3: "vertices_at g3 k1 = Inr a" and b3: "vertices_at g3 k2 = Inr b"
    using a b v3 by (simp_all add: vertices_at_def)
  have adj3: "adj g3 v = (if v = a then (adj g2 a)(b \<mapsto> w) else adj g2 v)" for v
    using 3 a b ra by (rule adj_neighbour_added)
  have adj': "adj g' v = (if v = b then (adj g3 b)(a \<mapsto> w) else adj g3 v)" for v
    using 5 b3 a3 rb l3 by (intro adj_neighbour_added) simp_all
  from wf2 3 have wf3: "well_formed g3" by (rule well_formed_neighbour_added)
  from wf3 5 have wf': "well_formed g'" by (rule well_formed_neighbour_added)
  have old: "adj g2 u v = Some c" if "v < length (objects g2)" "adj g2 v u = Some c" for u v c
    using that mi2 wf2 by (simp add: mirrored_iff well_formed_def)
  have "adj g' u v = Some c" if "v < length (objects g')" and "adj g' v u = Some c" for u v c
  proof -
    from that(1) have v: "v < length (objects g2)" by (simp add: l' l3)
    show ?thesis
    proof (cases "(v = a \<and> u = b) \<or> (v = b \<and> u = a)")
      case True
      with that(2) have "c = w" by (auto simp: adj' adj3 split: if_splits)
      with True show ?thesis by (auto simp: adj' adj3)
    next
      case False
      with that(2) have "adj g2 v u = Some c" by (auto simp: adj' adj3 split: if_splits)
      with v have "adj g2 u v = Some c" by (rule old)
      with False show ?thesis by (auto simp: adj' adj3)
    qed
  qed
  then have "mirrored g'" using wf' by (simp add: mirrored_iff well_formed_def)
  moreover from 5 und3 have "\<not> directed g'" by (simp add: neighbour_added_fields)
  ultimately show ?thesis by simp
qed

lemma mirrored_build:
  "well_formed g \<Longrightarrow> mirrored g \<Longrightarrow> \<not> directed g \<Longrightarrow> readds cs g = 0 \<Longrightarrow>
     mirrored (build cs g)"
proof (induction cs g rule: readds.induct)
  case (1 g)
  then show ?case by (simp add: build_def)
next
  case (2 key cs g)
  then show ?case
    by (simp add: build_def apply_op_def well_formed_add_vertex mirrored_add_vertex
          split: if_splits) (simp add: add_vertex_def)
next
  case (3 edge cs g)
  show ?case
  proof (cases "add_edge g edge")
    case (Inl e)
    with 3 show ?thesis by (simp add: build_def apply_op_def)
  next
    case (Inr g')
    with 3 mirrored_add_edge [of g edge g'] well_formed_add_edge [of g edge g']
    show ?thesis by (simp add: build_def apply_op_def)
  qed
qed

lemma mirrored_Graph: "mirrored (Graph d)"
  by (simp add: mirrored_def Graph_def)

section \<open>The list of edges\<close>

lemma get_edges_stored:
  assumes "all_stored g"
  shows "get_edges g =
    concat (map (\<lambda>v. map (\<lambda>(u, w). (v, u, w)) (connected_to (objects g ! v)))
      [0..<length (objects g)])"
  using assms by (simp add: get_edges_def all_stored_def)

lemma set_get_edges:
  assumes "well_formed g"
  shows "(v, u, w) \<in> set (get_edges g) \<longleftrightarrow> v < length (objects g) \<and> adj g v u = Some w"
proof -
  from assms have st: "all_stored g" and ro: "refs_ok g" by (simp_all add: well_formed_def)
  have "(v, u, w) \<in> set (get_edges g) \<longleftrightarrow>
      v < length (objects g) \<and> (u, w) \<in> set (connected_to (objects g ! v))"
    by (auto simp: get_edges_stored [OF st])
  then show ?thesis
    using entry_iff_adj [OF ro] by auto
qed

lemma length_get_edges:
  assumes "all_stored g"
  shows "length (get_edges g) = sum_list (map (\<lambda>v. length (connected_to v)) (objects g))"
proof -
  have "map (\<lambda>v. length (connected_to (objects g ! v))) [0..<length (objects g)] =
      map (\<lambda>v. length (connected_to v)) (objects g)"
    by (rule nth_equalityI) simp_all
  then show ?thesis
    by (simp add: get_edges_stored [OF assms] length_concat comp_def)
qed

lemma get_vertex_stored:
  assumes "all_stored g" and "v < length (objects g)"
  shows "get_vertex g (vid (objects g ! v)) = Inr v"
proof -
  have "zip (map fst (vertices g)) (map snd (vertices g)) = vertices g"
    by (rule zip_map_fst_snd)
  with assms(1) have z: "vertices g = zip (map vid (objects g)) [0..<length (objects g)]"
    by (simp add: all_stored_def)
  from assms(1) have d: "distinct (map vid (objects g))"
    by (simp add: all_stored_def)
  have "map_of (zip (map vid (objects g)) [0..<length (objects g)]) (map vid (objects g) ! v) =
      Some ([0..<length (objects g)] ! v)"
    using d assms(2) by (intro map_of_zip_nth) simp_all
  with assms(2) z show ?thesis by (simp add: get_vertex_def)
qed

text \<open>
  C7, as the code behaves. For a graph built from the empty graph by construction calls none
  of which adds a key again: \<^verbatim>\<open>get_edges\<close> lists exactly the adjacency entries of the stored
  vertices, one triple for each; the first two components of a triple are the \<^verbatim>\<open>Vertex\<close>
  objects stored under their own ids; and in an undirected graph the mirror \<open>(u, v, w)\<close> of every
  triple \<open>(v, u, w)\<close> is listed too (for an edge from a vertex to itself the two are the same
  triple).
\<close>

theorem C7_get_edges:
  assumes "readds cs (Graph d) = 0" and "g = build cs (Graph d)"
  shows "((v, u, w) \<in> set (get_edges g) \<longleftrightarrow>
            v \<in> set (map snd (vertices g)) \<and> (u, w) \<in> set (connected_to (objects g ! v))) \<and>
         length (get_edges g) = sum_list (map (\<lambda>v. length (connected_to v)) (objects g)) \<and>
         ((v, u, w) \<in> set (get_edges g) \<longrightarrow>
            get_vertex g (vid (objects g ! v)) = Inr v \<and>
            get_vertex g (vid (objects g ! u)) = Inr u) \<and>
         (\<not> d \<and> (v, u, w) \<in> set (get_edges g) \<longrightarrow> (u, v, w) \<in> set (get_edges g))"
proof -
  from assms have wf: "well_formed g"
    by (simp add: well_formed_build well_formed_Graph)
  then have st: "all_stored g" and ro: "refs_ok g" by (simp_all add: well_formed_def)
  have 1: "(v, u, w) \<in> set (get_edges g) \<longleftrightarrow>
      v \<in> set (map snd (vertices g)) \<and> (u, w) \<in> set (connected_to (objects g ! v))"
    by (auto simp: get_edges_def)
  have 2: "length (get_edges g) = sum_list (map (\<lambda>v. length (connected_to v)) (objects g))"
    using st by (rule length_get_edges)
  have 3: "get_vertex g (vid (objects g ! v)) = Inr v \<and> get_vertex g (vid (objects g ! u)) = Inr u"
    if "(v, u, w) \<in> set (get_edges g)"
  proof -
    from that wf have v: "v < length (objects g)" and a: "adj g v u = Some w"
      by (simp_all add: set_get_edges)
    from ro v a have "u < length (objects g)" by (rule adj_in_range)
    with v st show ?thesis by (simp add: get_vertex_stored)
  qed
  have 4: "(u, v, w) \<in> set (get_edges g)" if "\<not> d" and "(v, u, w) \<in> set (get_edges g)"
  proof -
    from that(1) have "\<not> directed (Graph d)" by (simp add: Graph_def)
    from mirrored_build [OF well_formed_Graph mirrored_Graph this assms(1)] assms(2)
    have "mirrored g" by simp
    moreover from that(2) wf have v: "v < length (objects g)" and a: "adj g v u = Some w"
      by (simp_all add: set_get_edges)
    ultimately have "adj g u v = Some w" using ro by (simp add: mirrored_iff)
    moreover from ro v a have "u < length (objects g)" by (rule adj_in_range)
    ultimately show ?thesis using wf by (simp add: set_get_edges)
  qed
  from 1 2 3 4 show ?thesis by blast
qed

text \<open>C7 at the undirected graph with the one edge between 1 and 2.\<close>

theorem C7_get_edges_witness:
  "readds [AddEdge [PInt 1, PInt 2, PInt 5]] (Graph False) = 0 \<and>
   (0, 1, PInt 5) \<in> set (get_edges pair_graph) \<and>
   (1, 0, PInt 5) \<in> set (get_edges pair_graph) \<and>
   get_vertex pair_graph (vid (objects pair_graph ! 0)) = Inr 0 \<and>
   length (get_edges pair_graph) =
     sum_list (map (\<lambda>v. length (connected_to v)) (objects pair_graph))"
proof -
  have r: "readds [AddEdge [PInt 1, PInt 2, PInt 5]] (Graph False) = 0" by code_simp
  have g: "pair_graph = build [AddEdge [PInt 1, PInt 2, PInt 5]] (Graph False)"
    by (simp add: pair_graph_def)
  have e: "(0, 1, PInt 5) \<in> set (get_edges pair_graph)" by code_simp
  from C7_get_edges [OF r g, of 0 1 "PInt 5"] e r show ?thesis by simp
qed

text \<open>
  C7, as the spec states it, fails at the undirected graph with one edge from vertex 1 to
  itself: the edge is one triple, not two.
\<close>

theorem C7_counterexample:
  "\<not> directed loop_graph \<and> get_edges loop_graph = [(0, 0, PInt 5)]"
  by code_simp

section \<open>Path printing\<close>






section \<open>What the algorithms leave untouched\<close>

lemma map_touch:
  assumes "f x = f (h ! v)"
  shows "map f (h[v := x]) = map f h"
proof (cases "v < length h")
  case True
  then have "(map f h)[v := f (h ! v)] = map f h"
    by (metis list_update_id nth_map)
  with assms show ?thesis by (simp add: map_update)
next
  case False
  then have "h[v := x] = h" by (intro list_update_beyond) simp
  then show ?thesis by simp
qed

lemma erase_simps:
  "erase s (v\<lparr>predecessor := p\<rparr>) = erase s v"
  "erase s (v\<lparr>dist := AList.update s d (dist v)\<rparr>) = erase s v"
  "erase s (v\<lparr>dist := AList.update s d (dist v), predecessor := p\<rparr>) = erase s v"
  by (simp_all add: erase_def)

lemma blank_simps:
  "blank s (v\<lparr>predecessor := p\<rparr>) = blank s v"
  "blank s (v\<lparr>color := c\<rparr>) = blank s v"
  "blank s (v\<lparr>dist := AList.update s d (dist v)\<rparr>) = blank s v"
  "blank s (v\<lparr>color := c, predecessor := p\<rparr>) = blank s v"
  "blank s (v\<lparr>color := c, predecessor := p, dist := AList.update s d (dist v)\<rparr>) = blank s v"
  by (simp_all add: blank_def erase_def)

lemma blank_fun: "blank s = (\<lambda>v. (erase s v)\<lparr>color := WHITE\<rparr>)"
  by (rule ext) (simp add: blank_def)

lemma map_erase_blank:
  "map (erase s) h' = map (erase s) h \<Longrightarrow> map (blank s) h' = map (blank s) h"
proof -
  assume "map (erase s) h' = map (erase s) h"
  then have "map (\<lambda>v. v\<lparr>color := WHITE\<rparr>) (map (erase s) h') =
      map (\<lambda>v. v\<lparr>color := WHITE\<rparr>) (map (erase s) h)"
    by simp
  then show ?thesis by (simp add: blank_fun comp_def)
qed

lemma map_blank_fields:
  assumes "map (blank s) h' = map (blank s) h"
  shows "map vid h' = map vid h" and "map connected_to h' = map connected_to h"
    and "length h' = length h"
proof -
  have "map vid (map (blank s) h') = map vid (map (blank s) h)"
    "map connected_to (map (blank s) h') = map connected_to (map (blank s) h)"
    "length (map (blank s) h') = length (map (blank s) h)"
    using assms by simp_all
  then show "map vid h' = map vid h" and "map connected_to h' = map connected_to h"
    and "length h' = length h"
    by (simp_all add: blank_fun erase_def comp_def)
qed

subsection \<open>Breadth-first search\<close>

lemma bfs_reset_blank: "map (blank s) (bfs_reset s u h) = map (blank s) h"
  by (simp add: bfs_reset_def map_touch blank_simps)

lemma fold_bfs_reset_blank: "map (blank s) (fold (bfs_reset s) vs h) = map (blank s) h"
  by (induction vs arbitrary: h) (simp_all add: bfs_reset_blank)

lemma bfs_start_blank: "map (blank s) (bfs_start g s) = map (blank s) (objects g)"
proof -
  define h0 where "h0 = fold (bfs_reset s) (map snd (vertices g)) (objects g)"
  define h1 where "h1 = h0[s := (h0 ! s)\<lparr>color := GRAY\<rparr>]"
  define h2 where "h2 = h1[s := (h1 ! s)\<lparr>dist := AList.update s 0 (dist (h1 ! s))\<rparr>]"
  have "bfs_start g s = h2[s := (h2 ! s)\<lparr>predecessor := None\<rparr>]"
    by (simp add: bfs_start_def Let_def h0_def h1_def h2_def)
  then have "map (blank s) (bfs_start g s) = map (blank s) h2"
    by (simp add: map_touch blank_simps)
  also have "\<dots> = map (blank s) h1" by (simp add: h2_def map_touch blank_simps)
  also have "\<dots> = map (blank s) h0" by (simp add: h1_def map_touch blank_simps)
  also have "\<dots> = map (blank s) (objects g)" by (simp add: h0_def fold_bfs_reset_blank)
  finally show ?thesis .
qed

lemma bfs_scan_blank:
  "bfs_scan n s u vs (q, h) = Some (Inr (q', h')) \<Longrightarrow> map (blank s) h' = map (blank s) h"
proof (induction vs arbitrary: q h)
  case Nil
  then show ?case by simp
next
  case (Cons v vs)
  show ?case
  proof (cases "color (h ! v) = WHITE")
    case False
    with Cons show ?thesis by simp
  next
    case True
    define h1 where "h1 = h[v := (h ! v)\<lparr>color := GRAY\<rparr>]"
    from True Cons.prems obtain du where du: "map_of (dist (h1 ! u)) s = Some du"
      by (auto simp: h1_def Let_def split: option.splits)
    define h2 where "h2 = h1[v := (h1 ! v)\<lparr>dist := AList.update s (du + 1) (dist (h1 ! v))\<rparr>]"
    define h3 where "h3 = h2[v := (h2 ! v)\<lparr>predecessor := Some u\<rparr>]"
    from True Cons.prems du have "bfs_scan n s u vs (q @ [v], h3) = Some (Inr (q', h'))"
      by (simp add: h1_def [symmetric] h2_def [symmetric] h3_def [symmetric] Let_def
            split: if_splits)
    then have "map (blank s) h' = map (blank s) h3" by (rule Cons.IH)
    also have "\<dots> = map (blank s) h2" by (simp add: h3_def map_touch blank_simps)
    also have "\<dots> = map (blank s) h1" by (simp add: h2_def map_touch blank_simps)
    also have "\<dots> = map (blank s) h" by (simp add: h1_def map_touch blank_simps)
    finally show ?thesis .
  qed
qed

lemma bfs_loop_blank:
  assumes "bfs_loop n s q h = Some r"
  shows "\<forall>h'. r = Inr h' \<longrightarrow> map (blank s) h' = map (blank s) h"
  using assms
proof (induction rule: bfs_loop.raw_induct [rotated 1, consumes 1])
  case (1 loop n s q h r)
  show ?case
  proof (cases q)
    case Nil
    with 1(2) show ?thesis by auto
  next
    case (Cons u q')
    show ?thesis
    proof (intro allI impI)
      fix h' assume r: "r = Inr h'"
      from 1(2) Cons r obtain q'' h1 where
        sc: "bfs_scan n s u (get_connections (h ! u)) (q', h) = Some (Inr (q'', h1))"
        and lp: "loop n s q'' (h1[u := (h1 ! u)\<lparr>color := BLACK\<rparr>]) = Some (Inr h')"
        by (auto split: option.splits sum.splits)
      from 1(1) [OF lp] have "map (blank s) h' = map (blank s) (h1[u := (h1 ! u)\<lparr>color := BLACK\<rparr>])"
        by simp
      also have "\<dots> = map (blank s) h1" by (simp add: map_touch blank_simps)
      also from sc have "\<dots> = map (blank s) h" by (rule bfs_scan_blank)
      finally show "map (blank s) h' = map (blank s) h" .
    qed
  qed
qed

lemma map_result_Inr:
  "map_option (map_sum (\<lambda>e. e) f) r = Some (Inr y) \<longleftrightarrow> (\<exists>h. r = Some (Inr h) \<and> y = f h)"
proof (cases r)
  case None
  then show ?thesis by simp
next
  case (Some a)
  then show ?thesis by (cases a) auto
qed

lemma bfs_blank:
  assumes "bfs g key = Some (Inr g')"
  shows "\<exists>s h'. get_vertex g key = Inr s \<and> g' = g\<lparr>objects := h'\<rparr> \<and>
    map (blank s) h' = map (blank s) (objects g)"
proof -
  from assms obtain s where s: "get_vertex g key = Inr s"
    by (auto simp: bfs_def split: sum.splits)
  with assms have "\<exists>h'. bfs_loop (num_vertices g) s [s] (bfs_start g s) = Some (Inr h') \<and>
      g' = g\<lparr>objects := h'\<rparr>"
    unfolding bfs_def by (simp only: sum.case map_result_Inr)
  then obtain h' where
    lp: "bfs_loop (num_vertices g) s [s] (bfs_start g s) = Some (Inr h')"
    and g': "g' = g\<lparr>objects := h'\<rparr>"
    by blast
  from bfs_loop_blank [OF lp] have "map (blank s) h' = map (blank s) (objects g)"
    by (simp add: bfs_start_blank)
  with s g' show ?thesis by blast
qed

subsection \<open>Depth-first search\<close>

lemma dfs_run_blank:
  assumes "dfs_run c st = Some st'"
  shows "map (blank s) (fst st') = map (blank s) (fst st)"
  using assms
proof (induction rule: dfs_run.raw_induct [rotated 1, consumes 1])
  case (1 run c st st')
  obtain h printed where st: "st = (h, printed)" by (cases st)
  show ?case
  proof (cases c)
    case (Inl u)
    with 1(2) st obtain h1 p1 where
      a: "run (Inr (u, get_connections (h ! u)))
            (h[u := (h ! u)\<lparr>color := GRAY\<rparr>], printed @ [vid (h ! u)]) = Some (h1, p1)"
      and b: "st' = (h1[u := (h1 ! u)\<lparr>color := BLACK\<rparr>], p1)"
      by (auto simp: bind_eq_Some_conv)
    from 1(1) [OF a] have "map (blank s) h1 = map (blank s) (h[u := (h ! u)\<lparr>color := GRAY\<rparr>])"
      by simp
    then show ?thesis by (simp add: b st map_touch blank_simps)
  next
    case (Inr p)
    obtain u vs where p: "p = (u, vs)" by (cases p)
    show ?thesis
    proof (cases vs)
      case Nil
      with 1(2) Inr p show ?thesis by simp
    next
      case (Cons v vs')
      show ?thesis
      proof (cases "color (h ! v) = WHITE")
        case True
        with 1(2) Inr p Cons st obtain st1 where
          a: "run (Inl v) (h[v := (h ! v)\<lparr>predecessor := Some u\<rparr>], printed) = Some st1"
          and b: "run (Inr (u, vs')) st1 = Some st'"
          by (auto simp: bind_eq_Some_conv)
        from 1(1) [OF b] have "map (blank s) (fst st') = map (blank s) (fst st1)" .
        also from 1(1) [OF a] have "\<dots> = map (blank s) (h[v := (h ! v)\<lparr>predecessor := Some u\<rparr>])"
          by simp
        finally show ?thesis by (simp add: st map_touch blank_simps)
      next
        case False
        with 1(2) Inr p Cons st have "run (Inr (u, vs')) st = Some st'" by simp
        from 1(1) [OF this] show ?thesis .
      qed
    qed
  qed
qed

lemma dfs_roots_blank:
  "dfs_roots us st = Some st' \<Longrightarrow> map (blank s) (fst st') = map (blank s) (fst st)"
proof (induction us arbitrary: st)
  case Nil
  then show ?case by simp
next
  case (Cons u us)
  show ?case
  proof (cases "color (fst st ! u) = WHITE")
    case True
    with Cons.prems obtain st1 where a: "dfs_visit u st = Some st1"
      and b: "dfs_roots us st1 = Some st'"
      by (auto simp: bind_eq_Some_conv)
    from Cons.IH [OF b] dfs_run_blank [of "Inl u" st st1 s] a show ?thesis
      by (simp add: dfs_visit_def)
  next
    case False
    with Cons show ?thesis by simp
  qed
qed

lemma dfs_reset_blank: "map (blank s) (fold dfs_reset vs h) = map (blank s) h"
  by (induction vs arbitrary: h) (simp_all add: dfs_reset_def map_touch blank_simps)

lemma dfs_blank:
  assumes "dfs g = Some (g', printed)"
  shows "\<exists>h'. g' = g\<lparr>objects := h'\<rparr> \<and> map (blank s) h' = map (blank s) (objects g)"
proof -
  from assms obtain h' where
    a: "dfs_roots (map snd (vertices g))
          (fold dfs_reset (map snd (vertices g)) (objects g), []) = Some (h', printed)"
    and g': "g' = g\<lparr>objects := h'\<rparr>"
    by (auto simp: dfs_def)
  from dfs_roots_blank [OF a, of s] have "map (blank s) h' = map (blank s) (objects g)"
    by (simp add: dfs_reset_blank)
  with g' show ?thesis by blast
qed

subsection \<open>Shortest paths\<close>

lemma source_reset_erase: "map (erase s) (source_reset s v h) = map (erase s) h"
  by (simp add: source_reset_def map_touch erase_simps)

lemma fold_source_reset_erase: "map (erase s) (fold (source_reset s) vs h) = map (erase s) h"
  by (induction vs arbitrary: h) (simp_all add: source_reset_erase)

lemma initialize_single_source_erase:
  "\<exists>h'. initialize_single_source g s = g\<lparr>objects := h'\<rparr> \<and>
     map (erase s) h' = map (erase s) (objects g)"
proof -
  define h0 where "h0 = fold (source_reset s) (map snd (vertices g)) (objects g)"
  define h1 where "h1 = h0[s := (h0 ! s)\<lparr>dist := AList.update s 0 (dist (h0 ! s))\<rparr>]"
  have "initialize_single_source g s = g\<lparr>objects := h1\<rparr>"
    by (simp add: initialize_single_source_def Let_def h0_def h1_def)
  moreover have "map (erase s) h1 = map (erase s) h0"
    by (simp add: h1_def map_touch erase_simps)
  moreover have "map (erase s) h0 = map (erase s) (objects g)"
    by (simp add: h0_def fold_source_reset_erase)
  ultimately show ?thesis by auto
qed

lemma relaxed_erase: "map (erase s) (relaxed h s u v d) = map (erase s) h"
proof -
  define h1 where "h1 = h[v := (h ! v)\<lparr>dist := AList.update s d (dist (h ! v))\<rparr>]"
  have "relaxed h s u v d = h1[v := (h1 ! v)\<lparr>predecessor := Some u\<rparr>]"
    by (simp add: relaxed_def h1_def Let_def)
  then have "map (erase s) (relaxed h s u v d) = map (erase s) h1"
    by (simp add: map_touch erase_simps)
  also have "\<dots> = map (erase s) h" by (simp add: h1_def map_touch erase_simps)
  finally show ?thesis .
qed

lemma relax_erase: "relax s u v w h = Inr h' \<Longrightarrow> map (erase s) h' = map (erase s) h"
  by (auto simp: relax_def relaxed_erase split: sum.splits if_splits)

lemma relax_edges_erase:
  "relax_edges s es h = Inr h' \<Longrightarrow> map (erase s) h' = map (erase s) h"
proof (induction es arbitrary: h)
  case Nil
  then show ?case by simp
next
  case (Cons e es)
  from Cons.prems obtain h1 where a: "relax s (fst e) (fst (snd e)) (snd (snd e)) h = Inr h1"
    and b: "relax_edges s es h1 = Inr h'"
    by (auto split: sum.splits)
  from Cons.IH [OF b] relax_erase [OF a] show ?case by simp
qed

lemma passes_erase:
  "passes n s g = Inr g' \<Longrightarrow>
     \<exists>h'. g' = g\<lparr>objects := h'\<rparr> \<and> map (erase s) h' = map (erase s) (objects g)"
proof (induction n arbitrary: g)
  case 0
  then have "g' = g\<lparr>objects := objects g\<rparr>" by simp
  then show ?case by blast
next
  case (Suc n)
  from Suc.prems obtain h1 where a: "relax_edges s (get_edges g) (objects g) = Inr h1"
    and b: "passes n s (g\<lparr>objects := h1\<rparr>) = Inr g'"
    by (auto split: sum.splits)
  from Suc.IH [OF b] obtain h' where "g' = g\<lparr>objects := h'\<rparr>"
    and "map (erase s) h' = map (erase s) h1"
    by auto
  with relax_edges_erase [OF a] show ?case by auto
qed

lemma bellman_ford_erase:
  assumes "bellman_ford g key = Inr g'"
  shows "\<exists>s h'. get_vertex g key = Inr s \<and> g' = g\<lparr>objects := h'\<rparr> \<and>
    map (erase s) h' = map (erase s) (objects g)"
proof -
  from assms obtain s where s: "get_vertex g key = Inr s"
    and p: "passes (nat (num_vertices g - 1)) s (initialize_single_source g s) = Inr g'"
    by (auto simp: bellman_ford_def bellman_ford_passes_def split: sum.splits)
  from initialize_single_source_erase [of g s] obtain h0 where
    i: "initialize_single_source g s = g\<lparr>objects := h0\<rparr>"
    and e0: "map (erase s) h0 = map (erase s) (objects g)"
    by blast
  from passes_erase [OF p] i obtain h' where "g' = g\<lparr>objects := h'\<rparr>"
    and "map (erase s) h' = map (erase s) h0"
    by auto
  with s e0 show ?thesis by auto
qed

lemma relax_with_priority_update_erase:
  "relax_with_priority_update s u v w (h, pq) = Inr (h', pq') \<Longrightarrow>
     map (erase s) h' = map (erase s) h"
  by (auto simp: relax_with_priority_update_def Let_def relaxed_erase split: sum.splits if_splits)

lemma dijkstra_scan_erase:
  "dijkstra_scan s u vs st = Inr st' \<Longrightarrow> map (erase s) (fst st') = map (erase s) (fst st)"
proof (induction vs arbitrary: st)
  case Nil
  then show ?case by simp
next
  case (Cons v vs)
  from Cons.prems obtain w st1 where
    a: "relax_with_priority_update s u v w st = Inr st1"
    and b: "dijkstra_scan s u vs st1 = Inr st'"
    by (auto split: sum.splits)
  from a have "map (erase s) (fst st1) = map (erase s) (fst st)"
    by (cases st, cases st1) (auto dest: relax_with_priority_update_erase)
  with Cons.IH [OF b] show ?case by simp
qed

lemma dijkstra_loop_erase:
  assumes "dijkstra_loop s h pq = Some r"
  shows "\<forall>h'. r = Inr h' \<longrightarrow> map (erase s) h' = map (erase s) h"
  using assms
proof (induction rule: dijkstra_loop.raw_induct [rotated 1, consumes 1])
  case (1 loop s h pq r)
  show ?case
  proof (cases "pop_task pq")
    case None
    with 1(2) show ?thesis by auto
  next
    case (Some a)
    obtain u pq' where a: "a = (u, pq')" by (cases a)
    show ?thesis
    proof (intro allI impI)
      fix h' assume r: "r = Inr h'"
      from 1(2) Some a r obtain h1 pq1 where
        sc: "dijkstra_scan s u (get_connections (h ! u)) (h, pq') = Inr (h1, pq1)"
        and lp: "loop s h1 pq1 = Some (Inr h')"
        by (auto split: sum.splits)
      from 1(1) [OF lp] have "map (erase s) h' = map (erase s) h1" by simp
      also from dijkstra_scan_erase [OF sc] have "\<dots> = map (erase s) h" by simp
      finally show "map (erase s) h' = map (erase s) h" .
    qed
  qed
qed

lemma map_sum_eq_Inr: "map_sum f k z = Inr y \<longleftrightarrow> (\<exists>x. z = Inr x \<and> y = k x)"
  by (cases z) auto

lemma dijkstra_erase:
  assumes "dijkstra g key = Some (Inr g')"
  shows "\<exists>s h'. get_vertex g key = Inr s \<and> g' = g\<lparr>objects := h'\<rparr> \<and>
    map (erase s) h' = map (erase s) (objects g)"
proof -
  from assms obtain s where s: "get_vertex g key = Inr s"
    by (auto simp: dijkstra_def split: sum.splits)
  from assms s obtain pq where ld: "load_tasks (initialize_single_source g s) s
      (get_vertices (initialize_single_source g s)) [] = Inr pq"
    by (auto simp: dijkstra_def Let_def split: sum.splits)
  from assms s ld have "\<exists>h'. dijkstra_loop s (objects (initialize_single_source g s)) pq =
      Some (Inr h') \<and> g' = g\<lparr>objects := h'\<rparr>"
    by (auto simp: dijkstra_def Let_def map_sum_eq_Inr)
  then obtain h' where
    lp: "dijkstra_loop s (objects (initialize_single_source g s)) pq = Some (Inr h')"
    and g': "g' = g\<lparr>objects := h'\<rparr>"
    by blast
  from initialize_single_source_erase [of g s]
  have "map (erase s) (objects (initialize_single_source g s)) = map (erase s) (objects g)"
    by auto
  with dijkstra_loop_erase [OF lp] have "map (erase s) h' = map (erase s) (objects g)" by simp
  with s g' show ?thesis by blast
qed

subsection \<open>The frame\<close>

lemma same_topology_blank:
  assumes "g' = g\<lparr>objects := h'\<rparr>" and "map (blank s) h' = map (blank s) (objects g)"
  shows "same_topology g g'"
  using assms map_blank_fields [OF assms(2)] by (simp add: same_topology_def)

text \<open>
  C8. A run of \<^verbatim>\<open>bfs\<close>, \<^verbatim>\<open>dfs\<close>, \<^verbatim>\<open>dijkstra\<close> or \<^verbatim>\<open>bellman_ford\<close> that returns leaves the
  stored vertices, the counter, the directed flag and, for every \<^verbatim>\<open>Vertex\<close> object, its id and
  its adjacency map with the weights as they were: only colours, distances and predecessors
  change.
\<close>

theorem C8_frame:
  "(bfs g key = Some (Inr g') \<longrightarrow> same_topology g g') \<and>
   (dfs g = Some (g', printed) \<longrightarrow> same_topology g g') \<and>
   (dijkstra g key = Some (Inr g') \<longrightarrow> same_topology g g') \<and>
   (bellman_ford g key = Inr g' \<longrightarrow> same_topology g g')"
proof (intro conjI impI)
  assume "bfs g key = Some (Inr g')"
  from bfs_blank [OF this] show "same_topology g g'"
    by (auto intro: same_topology_blank)
next
  assume "dfs g = Some (g', printed)"
  from dfs_blank [OF this, of 0] show "same_topology g g'"
    by (auto intro: same_topology_blank)
next
  assume "dijkstra g key = Some (Inr g')"
  from dijkstra_erase [OF this] show "same_topology g g'"
    by (auto intro: same_topology_blank map_erase_blank)
next
  assume "bellman_ford g key = Inr g'"
  from bellman_ford_erase [OF this] show "same_topology g g'"
    by (auto intro: same_topology_blank map_erase_blank)
qed

text \<open>C8 on the demonstration graph, for the four runs from key 0.\<close>

theorem C8_frame_witness:
  "bfs demo_graph (PInt 0) = Some (Inr demo_bfs) \<and> same_topology demo_graph demo_bfs \<and>
   dfs demo_graph = Some (demo_dfs, map PInt [0, 1, 2, 3, 4, 5]) \<and>
   same_topology demo_graph demo_dfs \<and>
   dijkstra demo_graph (PInt 0) = Some (Inr demo_dijkstra) \<and>
   same_topology demo_graph demo_dijkstra \<and>
   bellman_ford demo_graph (PInt 0) = Inr demo_bellman_ford \<and>
   same_topology demo_graph demo_bellman_ford"
proof -
  have 1: "bfs demo_graph (PInt 0) = Some (Inr demo_bfs)" by code_simp
  have 2: "dfs demo_graph = Some (demo_dfs, map PInt [0, 1, 2, 3, 4, 5])" by code_simp
  have 3: "dijkstra demo_graph (PInt 0) = Some (Inr demo_dijkstra)" by code_simp
  have 4: "bellman_ford demo_graph (PInt 0) = Inr demo_bellman_ford" by code_simp
  from 1 C8_frame [where g = demo_graph and key = "PInt 0" and g' = demo_bfs]
  have a: "same_topology demo_graph demo_bfs" by blast
  from 2 C8_frame [where g = demo_graph and g' = demo_dfs
      and printed = "map PInt [0, 1, 2, 3, 4, 5]"]
  have b: "same_topology demo_graph demo_dfs" by blast
  from 3 C8_frame [where g = demo_graph and key = "PInt 0" and g' = demo_dijkstra]
  have c: "same_topology demo_graph demo_dijkstra" by blast
  from 4 C8_frame [where g = demo_graph and key = "PInt 0" and g' = demo_bellman_ford]
  have d: "same_topology demo_graph demo_bellman_ford" by blast
  from 1 2 3 4 a b c d show ?thesis by blast
qed

section \<open>Running an algorithm twice\<close>

lemma nth_of_map_eq:
  assumes "map f h' = map f h" and "a < length h"
  shows "f (h' ! a) = f (h ! a)"
proof -
  from assms(1) have l: "length h' = length h" by (rule map_eq_imp_length_eq)
  from assms(1) have "map f h' ! a = map f h ! a" by simp
  with assms(2) l show ?thesis by simp
qed

lemma fold_source_reset_nth:
  "a < length h \<Longrightarrow>
     fold (source_reset s) vs h ! a =
       (if a \<in> set vs
        then (h ! a)\<lparr>dist := AList.update s maxsize (dist (h ! a)), predecessor := None\<rparr>
        else h ! a)"
proof (induction vs arbitrary: h)
  case Nil
  then show ?case by simp
next
  case (Cons v vs)
  have l: "a < length (source_reset s v h)" using Cons.prems by (simp add: source_reset_def)
  have n: "source_reset s v h ! a =
      (if a = v then (h ! a)\<lparr>dist := AList.update s maxsize (dist (h ! a)), predecessor := None\<rparr>
       else h ! a)"
    using Cons.prems by (simp add: source_reset_def)
  show ?case using n by (auto simp: Cons.IH [OF l])
qed

lemma length_fold_source_reset: "length (fold (source_reset s) vs h) = length h"
  by (induction vs arbitrary: h) (simp_all add: source_reset_def)

lemma fold_bfs_reset_nth:
  "a < length h \<Longrightarrow>
     fold (bfs_reset s) vs h ! a =
       (if a \<in> set vs \<and> a \<noteq> s
        then (h ! a)\<lparr>color := WHITE, predecessor := None,
                      dist := AList.update s maxsize (dist (h ! a))\<rparr>
        else h ! a)"
proof (induction vs arbitrary: h)
  case Nil
  then show ?case by simp
next
  case (Cons v vs)
  have l: "a < length (bfs_reset s v h)" using Cons.prems by (simp add: bfs_reset_def)
  have n: "bfs_reset s v h ! a =
      (if a = v \<and> a \<noteq> s
       then (h ! a)\<lparr>color := WHITE, predecessor := None,
                     dist := AList.update s maxsize (dist (h ! a))\<rparr>
       else h ! a)"
    using Cons.prems by (auto simp: bfs_reset_def)
  show ?case using n by (auto simp: Cons.IH [OF l])
qed

lemma length_fold_bfs_reset: "length (fold (bfs_reset s) vs h) = length h"
  by (induction vs arbitrary: h) (simp_all add: bfs_reset_def)

lemma source_reset_cong:
  assumes "erase s v' = erase s v"
  shows "v'\<lparr>dist := AList.update s d (dist v'), predecessor := None\<rparr> =
         v\<lparr>dist := AList.update s d (dist v), predecessor := None\<rparr>"
proof -
  have "x\<lparr>dist := AList.update s d (dist x), predecessor := None\<rparr> =
      (erase s x)\<lparr>dist := AList.update s d (dist (erase s x))\<rparr>" for x
    by (simp add: erase_def)
  with assms show ?thesis by simp
qed

lemma bfs_reset_cong:
  assumes "blank s v' = blank s v"
  shows "v'\<lparr>color := c, predecessor := None, dist := AList.update s d (dist v')\<rparr> =
         v\<lparr>color := c, predecessor := None, dist := AList.update s d (dist v)\<rparr>"
proof -
  have "x\<lparr>color := c, predecessor := None, dist := AList.update s d (dist x)\<rparr> =
      (blank s x)\<lparr>color := c, dist := AList.update s d (dist (blank s x))\<rparr>" for x
    by (simp add: blank_def erase_def)
  with assms show ?thesis by simp
qed

lemma initialize_single_source_nth:
  assumes "a < length (objects g)" and "a \<in> set (map snd (vertices g))"
  shows "objects (initialize_single_source g s) ! a =
    (objects g ! a)\<lparr>dist := AList.update s (if a = s then 0 else maxsize) (dist (objects g ! a)),
                    predecessor := None\<rparr>"
  using assms
  by (auto simp: initialize_single_source_def Let_def length_fold_source_reset
        fold_source_reset_nth)

lemma length_initialize_single_source:
  "length (objects (initialize_single_source g s)) = length (objects g)"
  by (simp add: initialize_single_source_def Let_def length_fold_source_reset)

lemma initialize_single_source_again:
  assumes st: "map snd (vertices g) = [0..<length (objects g)]"
    and e: "map (erase s) h' = map (erase s) (objects g)"
  shows "initialize_single_source (g\<lparr>objects := h'\<rparr>) s = initialize_single_source g s"
proof -
  from e have l: "length h' = length (objects g)" by (rule map_eq_imp_length_eq)
  have "objects (initialize_single_source (g\<lparr>objects := h'\<rparr>) s) =
      objects (initialize_single_source g s)"
  proof (rule nth_equalityI)
    show "length (objects (initialize_single_source (g\<lparr>objects := h'\<rparr>) s)) =
        length (objects (initialize_single_source g s))"
      by (simp add: length_initialize_single_source l)
  next
    fix a assume "a < length (objects (initialize_single_source (g\<lparr>objects := h'\<rparr>) s))"
    then have a: "a < length (objects g)" by (simp add: length_initialize_single_source l)
    from nth_of_map_eq [OF e a] have c: "erase s (h' ! a) = erase s (objects g ! a)" .
    from a st have m: "a \<in> set (map snd (vertices g))" by simp
    show "objects (initialize_single_source (g\<lparr>objects := h'\<rparr>) s) ! a =
        objects (initialize_single_source g s) ! a"
      using a l m source_reset_cong [OF c, of "if a = s then 0 else maxsize"]
      by (simp add: initialize_single_source_nth)
  qed
  then have "g\<lparr>objects := objects (initialize_single_source (g\<lparr>objects := h'\<rparr>) s)\<rparr> =
      g\<lparr>objects := objects (initialize_single_source g s)\<rparr>"
    by simp
  moreover have "initialize_single_source (g\<lparr>objects := h'\<rparr>) s =
      g\<lparr>objects := objects (initialize_single_source (g\<lparr>objects := h'\<rparr>) s)\<rparr>"
    by (simp add: initialize_single_source_def Let_def)
  moreover have "initialize_single_source g s =
      g\<lparr>objects := objects (initialize_single_source g s)\<rparr>"
    by (simp add: initialize_single_source_def Let_def)
  ultimately show ?thesis by simp
qed

lemma list_update_outside: "\<not> v < length h \<Longrightarrow> h[v := x] = h"
  by (intro list_update_beyond) simp

lemma length_bfs_start: "length (bfs_start g s) = length (objects g)"
  by (simp add: bfs_start_def Let_def length_fold_bfs_reset)

lemma bfs_start_nth:
  assumes "a < length (objects g)" and "a \<in> set (map snd (vertices g))"
  shows "bfs_start g s ! a =
    (objects g ! a)\<lparr>color := (if a = s then GRAY else WHITE), predecessor := None,
                    dist := AList.update s (if a = s then 0 else maxsize) (dist (objects g ! a))\<rparr>"
proof -
  define h0 where "h0 = fold (bfs_reset s) (map snd (vertices g)) (objects g)"
  have l0: "length h0 = length (objects g)" by (simp add: h0_def length_fold_bfs_reset)
  have n0: "h0 ! a = (if a \<noteq> s
      then (objects g ! a)\<lparr>color := WHITE, predecessor := None,
             dist := AList.update s maxsize (dist (objects g ! a))\<rparr>
      else objects g ! a)"
    using assms by (simp add: h0_def fold_bfs_reset_nth)
  have "bfs_start g s =
      h0[s := (h0 ! s)\<lparr>color := GRAY, dist := AList.update s 0 (dist (h0 ! s)),
                        predecessor := None\<rparr>]"
    by (cases "s < length h0")
      (simp_all add: bfs_start_def Let_def h0_def [symmetric] list_update_outside)
  then show ?thesis
    using assms(1) l0 n0 by (cases "a = s") simp_all
qed

lemma bfs_start_again:
  assumes st: "map snd (vertices g) = [0..<length (objects g)]"
    and e: "map (blank s) h' = map (blank s) (objects g)"
  shows "bfs_start (g\<lparr>objects := h'\<rparr>) s = bfs_start g s"
proof (rule nth_equalityI)
  from e have l: "length h' = length (objects g)" by (rule map_eq_imp_length_eq)
  then show "length (bfs_start (g\<lparr>objects := h'\<rparr>) s) = length (bfs_start g s)"
    by (simp add: length_bfs_start)
  fix a assume "a < length (bfs_start (g\<lparr>objects := h'\<rparr>) s)"
  then have a: "a < length (objects g)" by (simp add: length_bfs_start l)
  from nth_of_map_eq [OF e a] have c: "blank s (h' ! a) = blank s (objects g ! a)" .
  from a st have m: "a \<in> set (map snd (vertices g))" by simp
  show "bfs_start (g\<lparr>objects := h'\<rparr>) s ! a = bfs_start g s ! a"
    using a l m
      bfs_reset_cong [OF c, where c = "if a = s then GRAY else WHITE"
        and d = "if a = s then 0 else maxsize"]
    by (simp add: bfs_start_nth)
qed

text \<open>
  C9, as the code behaves. In a graph all of whose \<^verbatim>\<open>Vertex\<close> objects are stored (no key was
  added again), a run of \<^verbatim>\<open>bfs\<close>, \<^verbatim>\<open>dijkstra\<close> or \<^verbatim>\<open>bellman_ford\<close> that returned leaves a
  graph on which the same run from the same source returns again and changes nothing: every
  distance and every predecessor is as the first run left it.
\<close>

theorem C9_second_run:
  assumes "map snd (vertices g) = [0..<length (objects g)]"
  shows "(bfs g key = Some (Inr g1) \<longrightarrow> bfs g1 key = Some (Inr g1)) \<and>
         (dijkstra g key = Some (Inr g2) \<longrightarrow> dijkstra g2 key = Some (Inr g2)) \<and>
         (bellman_ford g key = Inr g3 \<longrightarrow> bellman_ford g3 key = Inr g3)"
proof (intro conjI impI)
  assume r: "bfs g key = Some (Inr g1)"
  from bfs_blank [OF r] obtain s h' where s: "get_vertex g key = Inr s"
    and g1: "g1 = g\<lparr>objects := h'\<rparr>" and e: "map (blank s) h' = map (blank s) (objects g)"
    by blast
  from r s have "map_option (map_sum (\<lambda>e. e) (\<lambda>h. g\<lparr>objects := h\<rparr>))
      (bfs_loop (num_vertices g) s [s] (bfs_start g s)) = Some (Inr (g\<lparr>objects := h'\<rparr>))"
    by (simp add: bfs_def g1)
  then have "bfs_loop (num_vertices g) s [s] (bfs_start g s) = Some (Inr h')"
    by (auto simp: map_sum_eq_Inr) (metis graph.ext_inject graph.surjective graph.update_convs(1))
  moreover have "get_vertex g1 key = Inr s" using s by (simp add: get_vertex_def g1)
  moreover have "bfs_start g1 s = bfs_start g s"
    unfolding g1 using assms e by (rule bfs_start_again)
  ultimately show "bfs g1 key = Some (Inr g1)"
    by (simp add: bfs_def) (simp add: g1)
next
  assume r: "dijkstra g key = Some (Inr g2)"
  from dijkstra_erase [OF r] obtain s h' where s: "get_vertex g key = Inr s"
    and g2: "g2 = g\<lparr>objects := h'\<rparr>" and e: "map (erase s) h' = map (erase s) (objects g)"
    by blast
  have i: "initialize_single_source g2 s = initialize_single_source g s"
    unfolding g2 using assms e by (rule initialize_single_source_again)
  have k: "get_vertex g2 key = Inr s" using s by (simp add: get_vertex_def g2)
  have "(\<lambda>h. g2\<lparr>objects := h\<rparr>) = (\<lambda>h. g\<lparr>objects := h\<rparr>)" by (simp add: g2)
  then have "dijkstra g2 key = dijkstra g key"
    by (simp add: dijkstra_def Let_def i k s cong: sum.case_cong)
  with r show "dijkstra g2 key = Some (Inr g2)" by simp
next
  assume r: "bellman_ford g key = Inr g3"
  from bellman_ford_erase [OF r] obtain s h' where s: "get_vertex g key = Inr s"
    and g3: "g3 = g\<lparr>objects := h'\<rparr>" and e: "map (erase s) h' = map (erase s) (objects g)"
    by blast
  have i: "initialize_single_source g3 s = initialize_single_source g s"
    unfolding g3 using assms e by (rule initialize_single_source_again)
  have k: "get_vertex g3 key = Inr s" using s by (simp add: get_vertex_def g3)
  have "num_vertices g3 = num_vertices g" by (simp add: g3)
  with r show "bellman_ford g3 key = Inr g3"
    by (simp add: bellman_ford_def bellman_ford_passes_def i k s)
qed

text \<open>C9 on the demonstration graph, for the three runs from key 0.\<close>

theorem C9_second_run_witness:
  "map snd (vertices demo_graph) = [0..<length (objects demo_graph)] \<and>
   bfs demo_graph (PInt 0) = Some (Inr demo_bfs) \<and>
   bfs demo_bfs (PInt 0) = Some (Inr demo_bfs) \<and>
   dijkstra demo_graph (PInt 0) = Some (Inr demo_dijkstra) \<and>
   dijkstra demo_dijkstra (PInt 0) = Some (Inr demo_dijkstra) \<and>
   bellman_ford demo_graph (PInt 0) = Inr demo_bellman_ford \<and>
   bellman_ford demo_bellman_ford (PInt 0) = Inr demo_bellman_ford"
proof -
  have 0: "map snd (vertices demo_graph) = [0..<length (objects demo_graph)]" by code_simp
  have 1: "bfs demo_graph (PInt 0) = Some (Inr demo_bfs)" by code_simp
  have 2: "dijkstra demo_graph (PInt 0) = Some (Inr demo_dijkstra)" by code_simp
  have 3: "bellman_ford demo_graph (PInt 0) = Inr demo_bellman_ford" by code_simp
  from C9_second_run [OF 0, where key = "PInt 0" and ?g1.0 = demo_bfs
      and ?g2.0 = demo_dijkstra and ?g3.0 = demo_bellman_ford] 0 1 2 3
  show ?thesis by blast
qed

text \<open>
  C9, as the spec states it, fails on \<open>readded_graph\<close>: the first \<^verbatim>\<open>bfs(1)\<close> reaches vertex 3
  at distance 2 through the replaced vertex of key 2, which it leaves black; no run resets
  that vertex, so the second \<^verbatim>\<open>bfs(1)\<close> leaves vertex 3 at \<^verbatim>\<open>sys.maxsize\<close>.
\<close>

theorem C9_counterexample:
  "bfs readded_graph (PInt 1) = Some (Inr readded_after) \<and>
   dists_from readded_after (PInt 1) =
     [(PInt 1, Some 0), (PInt 2, Some maxsize), (PInt 3, Some 2)] \<and>
   map_option (map_sum (\<lambda>e. e) (\<lambda>g. dists_from g (PInt 1))) (bfs readded_after (PInt 1)) =
     Some (Inr [(PInt 1, Some 0), (PInt 2, Some maxsize), (PInt 3, Some maxsize)])"
  by code_simp

section \<open>Relaxation along walks\<close>

lemma cost_simps [simp]: "cost [] = 0" "cost (e # p) = snd (snd e) + cost p"
  "cost (p @ q) = cost p + cost q"
  by (simp_all add: cost_def)

lemma walk_append: "walk E u (p @ q) v \<longleftrightarrow> (\<exists>m. walk E u p m \<and> walk E m q v)"
  by (induction p arbitrary: u) auto

lemma walk_snoc: "walk E u (p @ [e]) v \<longleftrightarrow> walk E u p (fst e) \<and> e \<in> set E \<and> fst (snd e) = v"
  by (auto simp: walk_append)

lemma walk_within: "within n E \<Longrightarrow> walk E u p v \<Longrightarrow> u < n \<Longrightarrow> v < n"
  by (induction p arbitrary: u) (auto simp: within_def)

subsection \<open>One pass\<close>

lemma relax_f_le: "relax_f e f x \<le> f x"
  by (simp add: relax_f_def)

lemma relax_f_edge: "relax_f e f (fst (snd e)) \<le> f (fst e) + snd (snd e)"
  by (simp add: relax_f_def)

lemma fold_relax_f_le: "fold relax_f es f x \<le> f x"
proof (induction es arbitrary: f)
  case Nil
  show ?case by simp
next
  case (Cons e es)
  have "fold relax_f es (relax_f e f) x \<le> relax_f e f x" by (rule Cons.IH)
  also have "\<dots> \<le> f x" by (rule relax_f_le)
  finally show ?case by simp
qed

lemma fold_relax_f_edge:
  "e \<in> set es \<Longrightarrow> fold relax_f es f (fst (snd e)) \<le> f (fst e) + snd (snd e)"
proof (induction es arbitrary: f)
  case Nil
  then show ?case by simp
next
  case (Cons a es)
  show ?case
  proof (cases "e = a")
    case True
    have "fold relax_f es (relax_f a f) (fst (snd e)) \<le> relax_f a f (fst (snd e))"
      by (rule fold_relax_f_le)
    also have "\<dots> \<le> f (fst e) + snd (snd e)" unfolding True by (rule relax_f_edge)
    finally show ?thesis by simp
  next
    case False
    with Cons.prems have "e \<in> set es" by simp
    then have "fold relax_f es (relax_f a f) (fst (snd e)) \<le> relax_f a f (fst e) + snd (snd e)"
      by (rule Cons.IH)
    also have "\<dots> \<le> f (fst e) + snd (snd e)" using relax_f_le [of a f "fst e"] by simp
    finally show ?thesis by simp
  qed
qed

lemma passes_f_le: "passes_f k E f x \<le> f x"
proof (induction k arbitrary: f)
  case 0
  show ?case by simp
next
  case (Suc k)
  have "passes_f k E (fold relax_f E f) x \<le> fold relax_f E f x" by (rule Suc.IH)
  also have "\<dots> \<le> f x" by (rule fold_relax_f_le)
  finally show ?case by simp
qed

lemma passes_f_walk:
  "walk E u p v \<Longrightarrow> length p \<le> k \<Longrightarrow> passes_f k E f v \<le> f u + cost p"
proof (induction k arbitrary: f u p)
  case 0
  then show ?case by simp
next
  case (Suc k)
  show ?case
  proof (cases p)
    case Nil
    with Suc.prems passes_f_le [of "Suc k" E f v] show ?thesis by simp
  next
    case (Cons e q)
    with Suc.prems have e: "e \<in> set E" "fst e = u" and q: "walk E (fst (snd e)) q v"
      and l: "length q \<le> k"
      by simp_all
    from Suc.IH [OF q l]
    have "passes_f k E (fold relax_f E f) v \<le> fold relax_f E f (fst (snd e)) + cost q" .
    also from fold_relax_f_edge [OF e(1), of f] e(2)
    have "\<dots> \<le> f u + snd (snd e) + cost q" by simp
    finally show ?thesis by (simp add: Cons)
  qed
qed

subsection \<open>Every value is the cost of a walk\<close>

lemma reached_relax_f:
  assumes "\<forall>v < n. reached n E f0 v (f v)" and "e \<in> set E" and "within n E"
  shows "\<forall>v < n. reached n E f0 v (relax_f e f v)"
proof (intro allI impI)
  fix v assume v: "v < n"
  show "reached n E f0 v (relax_f e f v)"
  proof (cases "f (fst (snd e)) > f (fst e) + snd (snd e) \<and> v = fst (snd e)")
    case False
    with assms(1) v show ?thesis by (auto simp: relax_f_def)
  next
    case True
    from assms(2,3) have "fst e < n" by (simp add: within_def)
    with assms(1) obtain u p where u: "u < n" and p: "walk E u p (fst e)"
      and x: "f (fst e) = f0 u + cost p"
      by (auto simp: reached_def)
    from p assms(2) True have "walk E u (p @ [e]) v" by (simp add: walk_snoc)
    moreover from True x have "relax_f e f v = f0 u + cost (p @ [e])"
      by (simp add: relax_f_def)
    ultimately show ?thesis using u unfolding reached_def by blast
  qed
qed

lemma reached_fold:
  assumes "within n E"
  shows "\<forall>v < n. reached n E f0 v (f v) \<Longrightarrow> set es \<subseteq> set E \<Longrightarrow>
    \<forall>v < n. reached n E f0 v (fold relax_f es f v)"
proof (induction es arbitrary: f)
  case Nil
  then show ?case by simp
next
  case (Cons e es)
  from Cons.prems have "\<forall>v < n. reached n E f0 v (relax_f e f v)"
    by (intro reached_relax_f assms) simp_all
  with Cons.prems show ?case by (simp add: Cons.IH)
qed

lemma reached_passes:
  assumes "within n E"
  shows "\<forall>v < n. reached n E f0 v (f v) \<Longrightarrow> \<forall>v < n. reached n E f0 v (passes_f k E f v)"
proof (induction k arbitrary: f)
  case 0
  then show ?case by simp
next
  case (Suc k)
  from Suc.prems have "\<forall>v < n. reached n E f0 v (fold relax_f E f v)"
    by (intro reached_fold assms) simp_all
  then show ?case by (simp add: Suc.IH)
qed

lemma reached_start: "\<forall>v < n. reached n E f0 v (f0 v)"
proof (intro allI impI)
  fix v :: nat assume "v < n"
  moreover have "walk E v [] v" by simp
  moreover have "f0 v = f0 v + cost []" by simp
  ultimately show "reached n E f0 v (f0 v)" unfolding reached_def by blast
qed

subsection \<open>A settled labelling\<close>

lemma settled_walk: "settled E f \<Longrightarrow> walk E u p v \<Longrightarrow> f v \<le> f u + cost p"
proof (induction p arbitrary: u)
  case Nil
  then show ?case by simp
next
  case (Cons e p)
  from Cons.prems have e: "e \<in> set E" "fst e = u" and p: "walk E (fst (snd e)) p v" by simp_all
  from Cons.IH [OF Cons.prems(1) p] have "f v \<le> f (fst (snd e)) + cost p" .
  also from Cons.prems(1) e have "f (fst (snd e)) \<le> f u + snd (snd e)"
    by (auto simp: settled_def)
  finally show ?case by simp
qed

lemma settled_no_negative_cycle: "settled E f \<Longrightarrow> \<not> negative_cycle E"
  unfolding negative_cycle_def
proof (intro notI, elim exE conjE)
  fix v p assume "settled E f" and "walk E v p v" and "cost p < 0"
  from settled_walk [OF this(1,2)] this(3) show False by simp
qed

lemma settled_least:
  assumes "settled E f" and "\<forall>v. f v \<le> f0 v" and "reached n E f0 v (f v)"
  shows "least n E f0 v (f v)"
  unfolding least_def
proof (intro conjI allI impI)
  show "reached n E f0 v (f v)" by fact
  fix y assume "reached n E f0 v y"
  then obtain u p where "walk E u p v" and y: "y = f0 u + cost p"
    by (auto simp: reached_def)
  from settled_walk [OF assms(1) this(1)] have "f v \<le> f u + cost p" .
  also from assms(2) have "f u \<le> f0 u" by simp
  finally show "f v \<le> y" by (simp add: y)
qed

lemma least_unique: "least n E f0 v x \<Longrightarrow> least n E f0 v y \<Longrightarrow> x = y"
  by (auto simp: least_def intro: antisym)

subsection \<open>Walks without a negative cycle can be shortened\<close>

lemma verts_Cons: "verts u (e # p) = u # verts (fst (snd e)) p"
  by (simp add: verts_def)

lemma verts_within: "within n E \<Longrightarrow> walk E u p v \<Longrightarrow> u < n \<Longrightarrow> set (verts u p) \<subseteq> {..<n}"
proof (induction p arbitrary: u)
  case Nil
  then show ?case by (simp add: verts_def)
next
  case (Cons e p)
  from Cons.prems have "fst (snd e) < n" and "walk E (fst (snd e)) p v"
    by (auto simp: within_def)
  with Cons.IH [OF Cons.prems(1)] Cons.prems(3) show ?case by (simp add: verts_Cons)
qed

lemma walk_split:
  "walk E x p v \<Longrightarrow> u \<in> set (verts x p) \<Longrightarrow> \<exists>a b. p = a @ b \<and> walk E x a u \<and> walk E u b v"
proof (induction p arbitrary: x)
  case Nil
  then have "[] = [] @ [] \<and> walk E x [] u \<and> walk E u [] v" by (simp add: verts_def)
  then show ?case by (intro exI)
next
  case (Cons e p)
  show ?case
  proof (cases "u = x")
    case True
    with Cons.prems(1) have "e # p = [] @ (e # p) \<and> walk E x [] u \<and> walk E u (e # p) v"
      by simp
    then show ?thesis by (intro exI)
  next
    case False
    with Cons.prems have "walk E (fst (snd e)) p v" and "u \<in> set (verts (fst (snd e)) p)"
      by (simp_all add: verts_Cons)
    from Cons.IH [OF this] obtain a b where "p = a @ b" and "walk E (fst (snd e)) a u"
      and "walk E u b v"
      by blast
    with Cons.prems(1) have "e # p = (e # a) @ b \<and> walk E x (e # a) u \<and> walk E u b v"
      by simp
    then show ?thesis by (intro exI)
  qed
qed

lemma walk_cycle:
  "walk E u p v \<Longrightarrow> \<not> distinct (verts u p) \<Longrightarrow>
     \<exists>a c b m. p = a @ c @ b \<and> c \<noteq> [] \<and> walk E u a m \<and> walk E m c m \<and> walk E m b v"
proof (induction p arbitrary: u)
  case Nil
  then show ?case by (simp add: verts_def)
next
  case (Cons e p)
  from Cons.prems(1) have e: "e \<in> set E" "fst e = u" and p: "walk E (fst (snd e)) p v"
    by simp_all
  show ?case
  proof (cases "u \<in> set (verts (fst (snd e)) p)")
    case True
    from walk_split [OF p True] obtain a b where ab: "p = a @ b"
      and a: "walk E (fst (snd e)) a u" and b: "walk E u b v"
      by blast
    from e a have "walk E u (e # a) u" by simp
    with ab b have "e # p = [] @ (e # a) @ b \<and> e # a \<noteq> [] \<and> walk E u [] u \<and>
        walk E u (e # a) u \<and> walk E u b v"
      by simp
    then show ?thesis by (intro exI)
  next
    case False
    with Cons.prems(2) have "\<not> distinct (verts (fst (snd e)) p)" by (simp add: verts_Cons)
    from Cons.IH [OF p this] obtain a c b m where "p = a @ c @ b" and "c \<noteq> []"
      and "walk E (fst (snd e)) a m" and "walk E m c m" and "walk E m b v"
      by blast
    with e have "e # p = (e # a) @ c @ b \<and> c \<noteq> [] \<and> walk E u (e # a) m \<and>
        walk E m c m \<and> walk E m b v"
      by simp
    then show ?thesis by (intro exI)
  qed
qed

lemma distinct_length_le:
  assumes "distinct xs" and "set xs \<subseteq> {..<n::nat}"
  shows "length xs \<le> n"
proof -
  from assms(1) have "length xs = card (set xs)" by (simp add: distinct_card)
  also from assms(2) have "\<dots> \<le> card {..<n}" by (intro card_mono) simp_all
  finally show ?thesis by simp
qed

lemma shorten:
  assumes "within n E" and "\<not> negative_cycle E"
  shows "walk E u p v \<Longrightarrow> u < n \<Longrightarrow> \<exists>q. walk E u q v \<and> length q < n \<and> cost q \<le> cost p"
proof (induction p rule: length_induct)
  case (1 p)
  show ?case
  proof (cases "length p < n")
    case True
    with "1.prems" show ?thesis by auto
  next
    case False
    have "\<not> distinct (verts u p)"
    proof
      assume "distinct (verts u p)"
      from distinct_length_le [OF this verts_within [OF assms(1) "1.prems"]]
      have "length (verts u p) \<le> n" .
      with False show False by (simp add: verts_def)
    qed
    from walk_cycle [OF "1.prems"(1) this] obtain a c b m where p: "p = a @ c @ b"
      and c: "c \<noteq> []" and wa: "walk E u a m" and wc: "walk E m c m" and wb: "walk E m b v"
      by blast
    have "0 \<le> cost c"
    proof (rule ccontr)
      assume "\<not> 0 \<le> cost c"
      with c wc have "c \<noteq> [] \<and> walk E m c m \<and> cost c < 0" by simp
      then have "negative_cycle E" unfolding negative_cycle_def by (intro exI)
      with assms(2) show False by simp
    qed
    then have le: "cost (a @ b) \<le> cost p" by (simp add: p)
    from c have "length (a @ b) < length p" by (simp add: p)
    moreover from wa wb have "walk E u (a @ b) v" by (auto simp: walk_append)
    ultimately obtain q where "walk E u q v" and "length q < n" and "cost q \<le> cost (a @ b)"
      using "1.IH" "1.prems"(2) by blast
    with le show ?thesis by force
  qed
qed

subsection \<open>The passes settle the labelling exactly when there is no negative cycle\<close>

lemma passes_f_settled:
  assumes w: "within n E" and nc: "\<not> negative_cycle E"
  shows "settled E (passes_f (n - 1) E f0)"
  unfolding settled_def
proof
  fix e assume e: "e \<in> set E"
  let ?f = "passes_f (n - 1) E f0"
  from e w have x: "fst e < n" by (simp add: within_def)
  from reached_passes [OF w reached_start, of f0 "n - 1"] x
  obtain u p where u: "u < n" and p: "walk E u p (fst e)" and fx: "?f (fst e) = f0 u + cost p"
    by (auto simp: reached_def)
  from p e have "walk E u (p @ [e]) (fst (snd e))" by (simp add: walk_snoc)
  from shorten [OF w nc this u] obtain q where q: "walk E u q (fst (snd e))"
    and l: "length q < n" and c: "cost q \<le> cost (p @ [e])"
    by blast
  from l have "length q \<le> n - 1" by simp
  from passes_f_walk [OF q this, of f0] have "?f (fst (snd e)) \<le> f0 u + cost q" .
  also from c have "\<dots> \<le> f0 u + cost p + snd (snd e)" by simp
  finally show "?f (fst (snd e)) \<le> ?f (fst e) + snd (snd e)" using fx by simp
qed

lemma passes_f_least:
  assumes w: "within n E" and nc: "\<not> negative_cycle E" and v: "v < n"
  shows "least n E f0 v (passes_f (n - 1) E f0 v)"
proof (rule settled_least)
  show "settled E (passes_f (n - 1) E f0)" using w nc by (rule passes_f_settled)
  show "\<forall>v. passes_f (n - 1) E f0 v \<le> f0 v" by (simp add: passes_f_le)
  from reached_passes [OF w reached_start, of f0 "n - 1"] v
  show "reached n E f0 v (passes_f (n - 1) E f0 v)" by simp
qed

section \<open>Bellman-Ford\<close>

lemma dists_relaxed:
  assumes "dists s h f" and "v < length h"
  shows "dists s (relaxed h s u v x) (f(v := x))" and "length (relaxed h s u v x) = length h"
  using assms by (auto simp: dists_def relaxed_def Let_def update_conv' nth_list_update)

lemma improves_dists:
  assumes "dists s h f" and "u < length h" and "v < length h"
  shows "improves h s u v (PInt w) = Inr (f u + w < f v, f u + w)"
  using assms by (simp add: improves_def dist_at_def plus_weight_def dists_def)

lemma relax_dists:
  assumes "dists s h f" and "u < length h" and "v < length h"
  shows "\<exists>h'. relax s u v (PInt w) h = Inr h' \<and> dists s h' (relax_f (u, v, w) f) \<and>
    length h' = length h"
proof (cases "f u + w < f v")
  case True
  with assms have "relax s u v (PInt w) h = Inr (relaxed h s u v (f u + w))"
    by (simp add: relax_def improves_dists)
  moreover from True have "relax_f (u, v, w) f = f(v := f u + w)" by (simp add: relax_f_def)
  ultimately show ?thesis using dists_relaxed [OF assms(1,3)] by simp
next
  case False
  with assms have "relax s u v (PInt w) h = Inr h" by (simp add: relax_def improves_dists)
  moreover from False have "relax_f (u, v, w) f = f" by (simp add: relax_f_def)
  ultimately show ?thesis using assms(1) by simp
qed

lemma is_int_conv: "is_int w \<Longrightarrow> w = PInt (int_of w)"
  by (cases w) simp_all

lemma relax_edges_dists:
  "dists s h f \<Longrightarrow> edges_ok (length h) es \<Longrightarrow>
     \<exists>h'. relax_edges s es h = Inr h' \<and> dists s h' (fold relax_f (map read es) f) \<and>
       length h' = length h"
proof (induction es arbitrary: h f)
  case Nil
  then show ?case by simp
next
  case (Cons e es)
  from Cons.prems(2) have u: "fst e < length h" and v: "fst (snd e) < length h"
    and w: "snd (snd e) = PInt (int_of (snd (snd e)))" and ok: "edges_ok (length h) es"
    by (auto simp: edges_ok_def dest: is_int_conv)
  from relax_dists [OF Cons.prems(1) u v, of "int_of (snd (snd e))"] w
  obtain h1 where r: "relax s (fst e) (fst (snd e)) (snd (snd e)) h = Inr h1"
    and d: "dists s h1 (relax_f (read e) f)" and l: "length h1 = length h"
    by (auto simp: read_def)
  from ok l have "edges_ok (length h1) es" by simp
  from Cons.IH [OF d this] r l show ?case by auto
qed

lemma edges_read: "edges g = map read (get_edges g)"
  by (simp add: edges_def read_def case_prod_beta)

lemma get_edges_objects:
  assumes "map connected_to h' = map connected_to (objects g)"
    and "\<forall>v \<in> set (map snd (vertices g)). v < length (objects g)"
  shows "get_edges (g\<lparr>objects := h'\<rparr>) = get_edges g"
proof -
  have "connected_to (h' ! v) = connected_to (objects g ! v)" if "v < length (objects g)" for v
    using nth_of_map_eq [OF assms(1) that] .
  with assms(2) show ?thesis
    by (auto simp: get_edges_def intro!: arg_cong [where f = concat])
qed

lemma passes_dists:
  assumes st: "\<forall>v \<in> set (map snd (vertices g)). v < length (objects g)"
  shows "dists s (objects g) f \<Longrightarrow> edges_ok (length (objects g)) (get_edges g) \<Longrightarrow>
     \<exists>h'. passes k s g = Inr (g\<lparr>objects := h'\<rparr>) \<and> dists s h' (passes_f k (edges g) f) \<and>
       length h' = length (objects g) \<and> map connected_to h' = map connected_to (objects g)"
  using st
proof (induction k arbitrary: g f)
  case 0
  have "g\<lparr>objects := objects g\<rparr> = g" by simp
  with 0 show ?case by (metis passes.simps(1) passes_f.simps(1))
next
  case (Suc k)
  from relax_edges_dists [OF Suc.prems(1,2)] obtain h1 where
    r: "relax_edges s (get_edges g) (objects g) = Inr h1"
    and d: "dists s h1 (fold relax_f (edges g) f)" and l: "length h1 = length (objects g)"
    by (auto simp: edges_read)
  from relax_edges_erase [OF r] have c: "map connected_to h1 = map connected_to (objects g)"
    by (intro map_blank_fields(2) map_erase_blank)
  let ?g1 = "g\<lparr>objects := h1\<rparr>"
  from get_edges_objects [OF c Suc.prems(3)] have e: "get_edges ?g1 = get_edges g" .
  have "dists s (objects ?g1) (fold relax_f (edges g) f)" using d by simp
  moreover have "edges_ok (length (objects ?g1)) (get_edges ?g1)"
    using Suc.prems(2) l e by simp
  moreover have "\<forall>v \<in> set (map snd (vertices ?g1)). v < length (objects ?g1)"
    using Suc.prems(3) l by simp
  ultimately obtain h' where p: "passes k s ?g1 = Inr (?g1\<lparr>objects := h'\<rparr>)"
    and d': "dists s h' (passes_f k (edges ?g1) (fold relax_f (edges g) f))"
    and l': "length h' = length (objects ?g1)"
    and c': "map connected_to h' = map connected_to (objects ?g1)"
    using Suc.IH [of ?g1 "fold relax_f (edges g) f"] by blast
  from e have "edges ?g1 = edges g" by (simp add: edges_def)
  with r p d' l' c' l c show ?case by auto
qed

lemma final_scan_dists:
  "dists s h f \<Longrightarrow> edges_ok (length h) es \<Longrightarrow>
     final_scan s es h = (if settled (map read es) f then Inr () else Inl ValueError)"
proof (induction es)
  case Nil
  then show ?case by (simp add: settled_def)
next
  case (Cons e es)
  from Cons.prems(2) have u: "fst e < length h" and v: "fst (snd e) < length h"
    and w: "snd (snd e) = PInt (int_of (snd (snd e)))" and ok: "edges_ok (length h) es"
    by (auto simp: edges_ok_def dest: is_int_conv)
  from improves_dists [OF Cons.prems(1) u v, of "int_of (snd (snd e))"] w
  have i: "improves h s (fst e) (fst (snd e)) (snd (snd e)) =
      Inr (f (fst e) + int_of (snd (snd e)) < f (fst (snd e)), f (fst e) + int_of (snd (snd e)))"
    by simp
  from Cons.IH [OF Cons.prems(1) ok] i show ?case
    by (auto simp: settled_def read_def)
qed

lemma stored_in_range:
  "all_stored g \<Longrightarrow> \<forall>v \<in> set (map snd (vertices g)). v < length (objects g)"
  by (simp add: all_stored_def)

lemma get_vertex_range:
  assumes "all_stored g" and "get_vertex g key = Inr s"
  shows "s < length (objects g)"
  using assms get_vertex_in_range [of g key s] by (simp add: get_vertex_def vertices_at_def)

lemma edges_ok_get_edges:
  assumes "well_formed g" and "int_weights g"
  shows "edges_ok (length (objects g)) (get_edges g)"
  unfolding edges_ok_def
proof
  fix e assume e: "e \<in> set (get_edges g)"
  obtain v u w where [simp]: "e = (v, u, w)" by (cases e)
  from assms(1) have ro: "refs_ok g" by (simp add: well_formed_def)
  from e assms(1) have v: "v < length (objects g)" and a: "adj g v u = Some w"
    by (simp_all add: set_get_edges)
  from ro v a have u: "u < length (objects g)" by (rule adj_in_range)
  from a have "(u, w) \<in> set (connected_to (objects g ! v))"
    by (auto simp: adj_def dest: map_of_SomeD)
  then have "w \<in> snd ` set (connected_to (objects g ! v))" by force
  with assms(2) v have "is_int w" by (auto simp: int_weights_def)
  with v u show "fst e < length (objects g) \<and> fst (snd e) < length (objects g) \<and>
      is_int (snd (snd e))"
    by simp
qed

lemma within_edges: "edges_ok n (get_edges g) \<Longrightarrow> within n (edges g)"
  by (auto simp: edges_ok_def within_def edges_read read_def)

lemma dists_initialize_single_source:
  assumes "all_stored g"
  shows "dists s (objects (initialize_single_source g s)) (start_cost s)"
  unfolding dists_def
proof (intro allI impI)
  fix v assume "v < length (objects (initialize_single_source g s))"
  then have v: "v < length (objects g)" by (simp add: length_initialize_single_source)
  with assms have "v \<in> set (map snd (vertices g))" by (simp add: all_stored_def)
  from initialize_single_source_nth [OF v this, of s]
  show "map_of (dist (objects (initialize_single_source g s) ! v)) s = Some (start_cost s v)"
    by (simp add: update_conv' start_cost_def)
qed

lemma initialize_single_source_fields:
  "vertices (initialize_single_source g s) = vertices g"
  "num_vertices (initialize_single_source g s) = num_vertices g"
  "map connected_to (objects (initialize_single_source g s)) = map connected_to (objects g)"
proof -
  from initialize_single_source_erase [of g s] obtain h' where
    i: "initialize_single_source g s = g\<lparr>objects := h'\<rparr>"
    and e: "map (erase s) h' = map (erase s) (objects g)"
    by blast
  from i show "vertices (initialize_single_source g s) = vertices g"
    and "num_vertices (initialize_single_source g s) = num_vertices g"
    by simp_all
  from e have "map connected_to h' = map connected_to (objects g)"
    by (intro map_blank_fields(2) map_erase_blank)
  with i show "map connected_to (objects (initialize_single_source g s)) =
      map connected_to (objects g)"
    by simp
qed

lemma get_edges_initialize_single_source:
  assumes "all_stored g"
  shows "get_edges (initialize_single_source g s) = get_edges g"
proof -
  have "initialize_single_source g s = g\<lparr>objects := objects (initialize_single_source g s)\<rparr>"
    by (simp add: initialize_single_source_def Let_def)
  moreover have "get_edges (g\<lparr>objects := objects (initialize_single_source g s)\<rparr>) = get_edges g"
    using initialize_single_source_fields(3) stored_in_range [OF assms]
    by (rule get_edges_objects)
  ultimately show ?thesis by simp
qed


text \<open>What \<^verbatim>\<open>bellman_ford\<close> returns, in terms of the labelling after the passes.\<close>

lemma bellman_ford_run:
  assumes wf: "well_formed g" and iw: "int_weights g" and s: "get_vertex g key = Inr s"
  shows "\<exists>h'. bellman_ford g key =
      (if negative_cycle (edges g) then Inl ValueError else Inr (g\<lparr>objects := h'\<rparr>)) \<and>
    dists s h' (passes_f (length (objects g) - 1) (edges g) (start_cost s)) \<and>
    length h' = length (objects g)"
proof -
  let ?n = "length (objects g)"
  let ?g0 = "initialize_single_source g s"
  from wf have st: "all_stored g" and nv: "num_vertices g = int ?n"
    by (simp_all add: well_formed_def)
  have ok: "edges_ok ?n (get_edges g)" using wf iw by (rule edges_ok_get_edges)
  then have wi: "within ?n (edges g)" by (rule within_edges)
  have e0: "get_edges ?g0 = get_edges g" using st by (rule get_edges_initialize_single_source)
  then have E0: "edges ?g0 = edges g" by (simp add: edges_def)
  have l0: "length (objects ?g0) = ?n" by (rule length_initialize_single_source)
  have g0: "?g0 = g\<lparr>objects := objects ?g0\<rparr>"
    by (simp add: initialize_single_source_def Let_def)
  have "\<forall>v \<in> set (map snd (vertices ?g0)). v < length (objects ?g0)"
    using stored_in_range [OF st] by (simp add: initialize_single_source_fields l0)
  moreover have "dists s (objects ?g0) (start_cost s)"
    using st by (rule dists_initialize_single_source)
  moreover have "edges_ok (length (objects ?g0)) (get_edges ?g0)" using ok by (simp add: e0 l0)
  ultimately obtain h' where p: "passes (?n - 1) s ?g0 = Inr (?g0\<lparr>objects := h'\<rparr>)"
    and d: "dists s h' (passes_f (?n - 1) (edges ?g0) (start_cost s))"
    and l: "length h' = length (objects ?g0)"
    and c: "map connected_to h' = map connected_to (objects ?g0)"
    using passes_dists [of ?g0 s "start_cost s" "?n - 1"] by blast
  have g': "?g0\<lparr>objects := h'\<rparr> = g\<lparr>objects := h'\<rparr>" by (subst g0) simp
  from c have "map connected_to h' = map connected_to (objects g)"
    by (simp add: initialize_single_source_fields)
  from get_edges_objects [OF this stored_in_range [OF st]]
  have e': "get_edges (g\<lparr>objects := h'\<rparr>) = get_edges g" .
  let ?F = "passes_f (?n - 1) (edges g) (start_cost s)"
  from d have d': "dists s h' ?F" by (simp add: E0)
  from ok l l0 have "edges_ok (length h') (get_edges g)" by simp
  from final_scan_dists [OF d' this]
  have fs: "final_scan s (get_edges g) h' = (if settled (edges g) ?F then Inr () else Inl ValueError)"
    by (simp add: edges_read)
  have "settled (edges g) ?F \<longleftrightarrow> \<not> negative_cycle (edges g)"
    using passes_f_settled [OF wi] settled_no_negative_cycle by blast
  with fs have fs': "final_scan s (get_edges g) h' =
      (if negative_cycle (edges g) then Inl ValueError else Inr ())"
    by simp
  have "nat (num_vertices g - 1) = ?n - 1" using nv by simp
  with s p g' e' fs' have "bellman_ford g key =
      (if negative_cycle (edges g) then Inl ValueError else Inr (g\<lparr>objects := h'\<rparr>))"
    by (simp add: bellman_ford_def bellman_ford_passes_def)
  with d' l l0 show ?thesis by auto
qed




section \<open>Dijkstra\<close>

subsection \<open>The queue\<close>

lemma min_task_in: "min_task m xs \<in> set (m # xs)"
  by (induction xs arbitrary: m) auto

lemma min_task_least: "\<forall>y \<in> set (m # xs). snd (min_task m xs) \<le> snd y"
proof (induction xs arbitrary: m)
  case Nil
  show ?case by simp
next
  case (Cons x xs)
  let ?m = "if snd x < snd m then x else m"
  from Cons.IH [of ?m] have a: "snd (min_task ?m xs) \<le> snd ?m"
    and b: "\<forall>y \<in> set xs. snd (min_task ?m xs) \<le> snd y"
    by simp_all
  from a have "snd (min_task ?m xs) \<le> snd m" and "snd (min_task ?m xs) \<le> snd x"
    by (simp_all split: if_splits)
  with b show ?case by simp
qed

lemma min_task_le: "y \<in> set (m # xs) \<Longrightarrow> snd (min_task m xs) \<le> snd y"
  using min_task_least [of m xs] by blast

lemma pop_task_Some:
  assumes "pq \<noteq> []"
  shows "\<exists>u p. pop_task pq = Some (u, AList.delete u pq) \<and> (u, p) \<in> set pq \<and>
    (\<forall>y \<in> set pq. p \<le> snd y)"
proof -
  from assms obtain x xs where pq: "pq = x # xs" by (cases pq) auto
  let ?m = "min_task x xs"
  have "pop_task pq = Some (fst ?m, AList.delete (fst ?m) pq)"
    by (simp add: pop_task_def pq Let_def)
  moreover have "(fst ?m, snd ?m) \<in> set pq" using min_task_in [of x xs] by (simp add: pq)
  moreover have "\<forall>y \<in> set pq. snd ?m \<le> snd y" using min_task_le [of _ x xs] by (simp add: pq)
  ultimately show ?thesis by blast
qed

lemma pop_task_None: "pop_task [] = None"
  by (simp add: pop_task_def)

lemma length_delete_distinct:
  "distinct (map fst al) \<Longrightarrow> k \<in> fst ` set al \<Longrightarrow> Suc (length (AList.delete k al)) = length al"
proof (induction al)
  case Nil
  then show ?case by simp
next
  case (Cons a al)
  show ?case
  proof (cases "fst a = k")
    case True
    with Cons.prems(1) have "k \<notin> fst ` set al" by auto
    with True show ?thesis by (simp add: delete_id)
  next
    case False
    with Cons show ?thesis by auto
  qed
qed

lemma set_delete: "set (AList.delete k al) = {x \<in> set al. fst x \<noteq> k}"
  by (auto simp: AList.delete_eq)

lemma keys_update_present:
  "k \<in> fst ` set al \<Longrightarrow> map fst (AList.update k v al) = map fst al"
  by (simp add: update_keys)

lemma set_update_present:
  "distinct (map fst al) \<Longrightarrow> set (AList.update k v al) = insert (k, v) {x \<in> set al. fst x \<noteq> k}"
  by (induction al) (auto simp: rev_image_eqI)

subsection \<open>The invariant\<close>

lemma scan_inv_pop:
  assumes q: "queue_inv n E f0 (f, pq)" and u: "(u, p) \<in> set pq"
    and least: "\<forall>y \<in> set pq. p \<le> snd y"
  shows "scan_inv n E f0 u (f u) (f, AList.delete u pq)"
proof -
  from q have d: "distinct (map fst pq)" and pr: "\<forall>x \<in> set pq. fst x < n \<and> snd x = f (fst x)"
    and re: "\<forall>v < n. reached n E f0 v (f v)" and le: "\<forall>v. f v \<le> f0 v"
    and se: "\<forall>e \<in> set E. fst e \<notin> fst ` set pq \<longrightarrow> f (fst (snd e)) \<le> f (fst e) + snd (snd e)"
    and po: "\<forall>x < n. \<forall>v \<in> fst ` set pq. x \<notin> fst ` set pq \<longrightarrow> f x \<le> f v"
    by (simp_all add: queue_inv_def)
  from u pr have un: "u < n" and pu: "p = f u" by auto
  have keys: "fst ` set (AList.delete u pq) = fst ` set pq - {u}"
    by (auto simp: set_delete)
  have uk: "u \<in> fst ` set pq" using u by force
  have "\<forall>x < n. x \<notin> fst ` set (AList.delete u pq) \<longrightarrow> f x \<le> f u"
    using po uk by (auto simp: keys)
  moreover have "\<forall>v \<in> fst ` set (AList.delete u pq). f u \<le> f v"
    using least pr pu by (auto simp: set_delete)
  moreover have "\<forall>e \<in> set E. fst e \<notin> fst ` set (AList.delete u pq) \<and> fst e \<noteq> u \<longrightarrow>
      f (fst (snd e)) \<le> f (fst e) + snd (snd e)"
    using se by (auto simp: keys)
  moreover have "distinct (map fst (AList.delete u pq))" using d by (rule distinct_delete)
  moreover have "\<forall>x \<in> set (AList.delete u pq). fst x < n \<and> snd x = f (fst x)"
    using pr by (simp add: set_delete)
  moreover have "u \<notin> fst ` set (AList.delete u pq)" by (simp add: keys)
  ultimately show ?thesis using un re le by (simp add: scan_inv_def)
qed

lemma scan_inv_step:
  assumes si: "scan_inv n E f0 u c (f, pq)" and e: "(u, v, w) \<in> set E" and w: "0 \<le> w"
    and v: "v < n"
  shows "scan_inv n E f0 u c (relax_q u (v, w) (f, pq)) \<and>
    map fst (snd (relax_q u (v, w) (f, pq))) = map fst pq \<and>
    fst (relax_q u (v, w) (f, pq)) v \<le> c + w \<and>
    (\<forall>x. fst (relax_q u (v, w) (f, pq)) x \<le> f x)"
proof -
  from si have fu: "f u = c" and un: "u < n" and uk: "u \<notin> fst ` set pq"
    and d: "distinct (map fst pq)" and pr: "\<forall>x \<in> set pq. fst x < n \<and> snd x = f (fst x)"
    and re: "\<forall>v < n. reached n E f0 v (f v)" and le: "\<forall>v. f v \<le> f0 v"
    and se: "\<forall>e \<in> set E. fst e \<notin> fst ` set pq \<and> fst e \<noteq> u \<longrightarrow>
      f (fst (snd e)) \<le> f (fst e) + snd (snd e)"
    and po: "\<forall>x < n. x \<notin> fst ` set pq \<longrightarrow> f x \<le> c"
    and qu: "\<forall>v \<in> fst ` set pq. c \<le> f v"
    by (simp_all add: scan_inv_def)
  show ?thesis
  proof (cases "f v > c + w")
    case False
    then have r: "relax_q u (v, w) (f, pq) = (f, pq)" by (simp add: relax_q_def fu)
    from si False show ?thesis by (simp add: r)
  next
    case True
    let ?f = "f(v := c + w)" and ?pq = "AList.update v (c + w) pq"
    from True have r: "relax_q u (v, w) (f, pq) = (?f, ?pq)"
      by (simp add: relax_q_def fu add_task_def)
    from True w po v have vk: "v \<in> fst ` set pq" by force
    with uk have vu: "v \<noteq> u" by auto
    have keys: "map fst ?pq = map fst pq" using vk by (rule keys_update_present)
    then have kset: "fst ` set ?pq = fst ` set pq" by (metis set_map)
    have sq: "set ?pq = insert (v, c + w) {x \<in> set pq. fst x \<noteq> v}"
      using d by (rule set_update_present)
    have "reached n E f0 v (c + w)"
    proof -
      from re un fu obtain u0 p where u0: "u0 < n" and p: "walk E u0 p u"
        and c: "c = f0 u0 + cost p"
        by (auto simp: reached_def)
      from p e have "walk E u0 (p @ [(u, v, w)]) v" by (simp add: walk_snoc)
      with u0 c have "u0 < n \<and> walk E u0 (p @ [(u, v, w)]) v \<and>
          c + w = f0 u0 + cost (p @ [(u, v, w)])"
        by simp
      then show ?thesis unfolding reached_def by (intro exI)
    qed
    with re have re': "\<forall>x < n. reached n E f0 x (?f x)" by simp
    from True le have le': "\<forall>x. ?f x \<le> f0 x"
      by (auto intro: order_trans less_imp_le)
    have se': "\<forall>e \<in> set E. fst e \<notin> fst ` set ?pq \<and> fst e \<noteq> u \<longrightarrow>
        ?f (fst (snd e)) \<le> ?f (fst e) + snd (snd e)"
    proof (intro ballI impI)
      fix e assume e: "e \<in> set E" and k: "fst e \<notin> fst ` set ?pq \<and> fst e \<noteq> u"
      with se kset have old: "f (fst (snd e)) \<le> f (fst e) + snd (snd e)" by simp
      from k kset vk have "fst e \<noteq> v" by auto
      with old True show "?f (fst (snd e)) \<le> ?f (fst e) + snd (snd e)" by auto
    qed
    have po': "\<forall>x < n. x \<notin> fst ` set ?pq \<longrightarrow> ?f x \<le> c"
      using po vk by (auto simp: kset)
    have qu': "\<forall>x \<in> fst ` set ?pq. c \<le> ?f x"
      using qu w by (auto simp: kset)
    have pr': "\<forall>x \<in> set ?pq. fst x < n \<and> snd x = ?f (fst x)"
      using pr v by (auto simp: sq)
    have d': "distinct (map fst ?pq)" using d by (simp add: keys)
    have fu': "?f u = c" using vu fu by simp
    have uk': "u \<notin> fst ` set ?pq" using uk kset by simp
    have "scan_inv n E f0 u c (?f, ?pq)"
      unfolding scan_inv_def prod.case
      by (intro conjI fu' un uk' d' pr' re' le' se' po' qu')
    moreover from True have "\<forall>x. ?f x \<le> f x" by simp
    ultimately show ?thesis by (simp add: r keys)
  qed
qed

lemma scan_inv_fold:
  "scan_inv n E f0 u c fq \<Longrightarrow>
   \<forall>e \<in> set es. (u, fst e, snd e) \<in> set E \<and> 0 \<le> snd e \<and> fst e < n \<Longrightarrow>
     scan_inv n E f0 u c (fold (relax_q u) es fq) \<and>
     map fst (snd (fold (relax_q u) es fq)) = map fst (snd fq) \<and>
     (\<forall>x. fst (fold (relax_q u) es fq) x \<le> fst fq x) \<and>
     (\<forall>e \<in> set es. fst (fold (relax_q u) es fq) (fst e) \<le> c + snd e)"
proof (induction es arbitrary: fq)
  case Nil
  then show ?case by simp
next
  case (Cons e es)
  obtain f pq where fq: "fq = (f, pq)" by (cases fq)
  obtain v w where e: "e = (v, w)" by (cases e)
  from Cons.prems(2) have ee: "(u, v, w) \<in> set E" and w: "0 \<le> w" and v: "v < n"
    by (simp_all add: e)
  let ?fq = "relax_q u (v, w) (f, pq)"
  from Cons.prems(1) have si: "scan_inv n E f0 u c (f, pq)" by (simp add: fq)
  from scan_inv_step [OF si ee w v]
  have st: "scan_inv n E f0 u c ?fq" "map fst (snd ?fq) = map fst pq"
    "fst ?fq v \<le> c + w" "\<forall>x. fst ?fq x \<le> f x"
    by simp_all
  from Cons.prems(2) have rest: "\<forall>e \<in> set es. (u, fst e, snd e) \<in> set E \<and> 0 \<le> snd e \<and> fst e < n"
    by simp
  from Cons.IH [OF st(1) rest]
  have a: "scan_inv n E f0 u c (fold (relax_q u) es ?fq)"
    and b: "map fst (snd (fold (relax_q u) es ?fq)) = map fst (snd ?fq)"
    and c: "\<forall>x. fst (fold (relax_q u) es ?fq) x \<le> fst ?fq x"
    and d: "\<forall>e \<in> set es. fst (fold (relax_q u) es ?fq) (fst e) \<le> c + snd e"
    by simp_all
  from c st(3) have "fst (fold (relax_q u) es ?fq) v \<le> c + w"
    by (meson order_trans)
  moreover from c st(4) have "\<forall>x. fst (fold (relax_q u) es ?fq) x \<le> f x"
    by (meson order_trans)
  ultimately show ?case using a b d st(2) by (simp add: fq e)
qed

lemma queue_inv_close:
  assumes si: "scan_inv n E f0 u c (f, pq)"
    and out: "\<forall>e \<in> set E. fst e = u \<longrightarrow> f (fst (snd e)) \<le> c + snd (snd e)"
  shows "queue_inv n E f0 (f, pq)"
proof -
  from si have fu: "f u = c" and un: "u < n" and uk: "u \<notin> fst ` set pq"
    and d: "distinct (map fst pq)" and pr: "\<forall>x \<in> set pq. fst x < n \<and> snd x = f (fst x)"
    and re: "\<forall>v < n. reached n E f0 v (f v)" and le: "\<forall>v. f v \<le> f0 v"
    and se: "\<forall>e \<in> set E. fst e \<notin> fst ` set pq \<and> fst e \<noteq> u \<longrightarrow>
      f (fst (snd e)) \<le> f (fst e) + snd (snd e)"
    and po: "\<forall>x < n. x \<notin> fst ` set pq \<longrightarrow> f x \<le> c"
    and qu: "\<forall>v \<in> fst ` set pq. c \<le> f v"
    by (simp_all add: scan_inv_def)
  have "\<forall>e \<in> set E. fst e \<notin> fst ` set pq \<longrightarrow> f (fst (snd e)) \<le> f (fst e) + snd (snd e)"
    using se out fu by (metis)
  moreover have "\<forall>x < n. \<forall>v \<in> fst ` set pq. x \<notin> fst ` set pq \<longrightarrow> f x \<le> f v"
    using po qu by (meson order_trans)
  ultimately show ?thesis using d pr re le by (simp add: queue_inv_def)
qed

lemma queue_inv_empty:
  assumes "queue_inv n E f0 (f, [])"
  shows "settled E f" and "\<forall>v. f v \<le> f0 v" and "\<forall>v < n. reached n E f0 v (f v)"
  using assms by (simp_all add: queue_inv_def settled_def)

subsection \<open>The loop on the objects\<close>

lemma map_connected_to_erase:
  "map (erase s) h' = map (erase s) h \<Longrightarrow> map connected_to h' = map connected_to h"
  by (intro map_blank_fields(2) map_erase_blank)

lemma relax_with_priority_update_dists:
  assumes "dists s h f" and "u < length h" and "v < length h"
  shows "\<exists>h' f' pq'. relax_with_priority_update s u v (PInt w) (h, pq) = Inr (h', pq') \<and>
    relax_q u (v, w) (f, pq) = (f', pq') \<and> dists s h' f' \<and> length h' = length h"
proof (cases "f u + w < f v")
  case True
  let ?h = "relaxed h s u v (f u + w)"
  from dists_relaxed [OF assms(1,3), of u "f u + w"]
  have d: "dists s ?h (f(v := f u + w))" and l: "length ?h = length h" by simp_all
  from d l assms(3) have "dist_at ?h v s = Inr (f u + w)"
    by (simp add: dist_at_def dists_def)
  with True assms have "relax_with_priority_update s u v (PInt w) (h, pq) =
      Inr (?h, add_task pq v (f u + w))"
    by (simp add: relax_with_priority_update_def improves_dists Let_def)
  moreover from True have "relax_q u (v, w) (f, pq) = (f(v := f u + w), add_task pq v (f u + w))"
    by (simp add: relax_q_def)
  ultimately show ?thesis using d l by simp
next
  case False
  with assms have "relax_with_priority_update s u v (PInt w) (h, pq) = Inr (h, pq)"
    by (simp add: relax_with_priority_update_def improves_dists)
  moreover from False have "relax_q u (v, w) (f, pq) = (f, pq)" by (simp add: relax_q_def)
  ultimately show ?thesis using assms(1) by simp
qed

lemma dijkstra_scan_dists:
  "dists s h f \<Longrightarrow> u < length h \<Longrightarrow>
   \<forall>x \<in> set al. map_of (connected_to (h ! u)) (fst x) = Some (snd x) \<and> fst x < length h \<and>
     is_int (snd x) \<Longrightarrow>
   \<exists>h' f' pq'. dijkstra_scan s u (map fst al) (h, pq) = Inr (h', pq') \<and>
     fold (relax_q u) (map read_entry al) (f, pq) = (f', pq') \<and> dists s h' f' \<and>
     length h' = length h \<and> map connected_to h' = map connected_to h"
proof (induction al arbitrary: h f pq)
  case Nil
  then show ?case by simp
next
  case (Cons x al)
  from Cons.prems(3) have gw: "get_weight (h ! u) (fst x) = Inr (snd x)"
    and v: "fst x < length h" and w: "snd x = PInt (int_of (snd x))"
    by (auto simp: get_weight_def dest: is_int_conv)
  from relax_with_priority_update_dists [OF Cons.prems(1,2) v, of "int_of (snd x)" pq] w
  obtain h1 f1 pq1 where
    r: "relax_with_priority_update s u (fst x) (snd x) (h, pq) = Inr (h1, pq1)"
    and q: "relax_q u (read_entry x) (f, pq) = (f1, pq1)"
    and d: "dists s h1 f1" and l: "length h1 = length h"
    by (auto simp: read_entry_def)
  from relax_with_priority_update_erase [OF r]
  have c: "map connected_to h1 = map connected_to h" by (rule map_connected_to_erase)
  from nth_of_map_eq [OF c Cons.prems(2)]
  have cu: "connected_to (h1 ! u) = connected_to (h ! u)" .
  from Cons.prems(2,3) l cu
  have "u < length h1" and "\<forall>x \<in> set al. map_of (connected_to (h1 ! u)) (fst x) = Some (snd x) \<and>
      fst x < length h1 \<and> is_int (snd x)"
    by simp_all
  from Cons.IH [OF d this, of pq1] obtain h' f' pq' where
    "dijkstra_scan s u (map fst al) (h1, pq1) = Inr (h', pq')"
    and "fold (relax_q u) (map read_entry al) (f1, pq1) = (f', pq')"
    and "dists s h' f'" and "length h' = length h1"
    and "map connected_to h' = map connected_to h1"
    by blast
  with gw r q l c show ?case by simp
qed

lemma nonneg_conv: "nonneg w \<Longrightarrow> is_int w \<and> 0 \<le> int_of w"
  by (cases w) simp_all

lemma nonneg_int_weights: "nonneg_weights g \<Longrightarrow> int_weights g"
  by (auto simp: nonneg_weights_def int_weights_def dest: nonneg_conv)

lemma nonneg_weightsD:
  assumes "nonneg_weights g" and "v < length (objects g)"
    and "x \<in> set (connected_to (objects g ! v))"
  shows "nonneg (snd x)"
proof -
  from assms(2) have "objects g ! v \<in> set (objects g)" by (rule nth_mem)
  moreover from assms(3) have "snd x \<in> snd ` set (connected_to (objects g ! v))"
    by (rule imageI)
  ultimately show ?thesis using assms(1) unfolding nonneg_weights_def by blast
qed

lemma in_get_edges:
  assumes "all_stored g"
  shows "(v, u, w) \<in> set (get_edges g) \<longleftrightarrow>
    v < length (objects g) \<and> (u, w) \<in> set (connected_to (objects g ! v))"
  by (auto simp: get_edges_stored [OF assms])

lemma in_edges:
  assumes "all_stored g"
  shows "e \<in> set (edges g) \<longleftrightarrow>
    (fst e < length (objects g) \<and>
     (\<exists>x \<in> set (connected_to (objects g ! fst e)). e = (fst e, fst x, int_of (snd x))))"
proof
  assume "e \<in> set (edges g)"
  then obtain v u w where "(v, u, w) \<in> set (get_edges g)" and e: "e = (v, u, int_of w)"
    by (auto simp: edges_def)
  with assms have "v < length (objects g)" and "(u, w) \<in> set (connected_to (objects g ! v))"
    by (simp_all add: in_get_edges)
  with e show "fst e < length (objects g) \<and>
      (\<exists>x \<in> set (connected_to (objects g ! fst e)). e = (fst e, fst x, int_of (snd x)))"
    by force
next
  assume a: "fst e < length (objects g) \<and>
    (\<exists>x \<in> set (connected_to (objects g ! fst e)). e = (fst e, fst x, int_of (snd x)))"
  then obtain x where x: "x \<in> set (connected_to (objects g ! fst e))"
    and e: "e = (fst e, fst x, int_of (snd x))"
    by blast
  from a have v: "fst e < length (objects g)" by simp
  from v x have "(fst e, fst x, snd x) \<in> set (get_edges g)"
    using in_get_edges [OF assms, of "fst e" "fst x" "snd x"] by simp
  then have "read (fst e, fst x, snd x) \<in> set (edges g)"
    unfolding edges_read set_map by (rule imageI)
  then have "(fst e, fst x, int_of (snd x)) \<in> set (edges g)"
    by (simp add: read_def)
  with e show "e \<in> set (edges g)" by simp
qed

lemma nonneg_edges:
  assumes "well_formed g" and "nonneg_weights g" and "e \<in> set (edges g)"
  shows "0 \<le> snd (snd e)"
proof -
  from assms(1) have st: "all_stored g" by (simp add: well_formed_def)
  from assms(3) obtain x where v: "fst e < length (objects g)"
    and x: "x \<in> set (connected_to (objects g ! fst e))" and e: "e = (fst e, fst x, int_of (snd x))"
    by (auto simp: in_edges [OF st])
  from assms(2) v x have "nonneg (snd x)" by (rule nonneg_weightsD)
  then have "0 \<le> int_of (snd x)" by (simp add: nonneg_conv)
  with e show ?thesis by (metis snd_conv)
qed

lemma nonneg_walk: "\<forall>e \<in> set E. 0 \<le> snd (snd e) \<Longrightarrow> walk E u p v \<Longrightarrow> 0 \<le> cost p"
  by (induction p arbitrary: u) auto

lemma nonneg_no_negative_cycle:
  assumes "\<forall>e \<in> set E. 0 \<le> snd (snd e)"
  shows "\<not> negative_cycle E"
  using nonneg_walk [OF assms] by (fastforce simp: negative_cycle_def)

text \<open>The entries of an adjacency map in a well-formed graph with weights that are not negative.\<close>

lemma entries:
  assumes wf: "well_formed g" and nn: "nonneg_weights g" and u: "u < length (objects g)"
    and x: "x \<in> set (connected_to (objects g ! u))"
  shows "map_of (connected_to (objects g ! u)) (fst x) = Some (snd x)"
    and "fst x < length (objects g)" and "is_int (snd x)" and "0 \<le> int_of (snd x)"
    and "(u, fst x, int_of (snd x)) \<in> set (edges g)"
proof -
  from wf have ro: "refs_ok g" and st: "all_stored g" by (simp_all add: well_formed_def)
  from x have "(fst x, snd x) \<in> set (connected_to (objects g ! u))" by simp
  with entry_iff_adj [OF ro u, of "fst x" "snd x"] have a: "adj g u (fst x) = Some (snd x)"
    by blast
  then show "map_of (connected_to (objects g ! u)) (fst x) = Some (snd x)" by (simp add: adj_def)
  from ro u a show "fst x < length (objects g)" by (rule adj_in_range)
  from nn u x have "nonneg (snd x)" by (rule nonneg_weightsD)
  then show "is_int (snd x)" and "0 \<le> int_of (snd x)" by (simp_all add: nonneg_conv)
  from u x show "(u, fst x, int_of (snd x)) \<in> set (edges g)"
    by (subst in_edges [OF st]) auto
qed

lemma dijkstra_loop_settles:
  assumes wf: "well_formed g" and nn: "nonneg_weights g"
  shows "queue_inv (length (objects g)) (edges g) f0 (f, pq) \<Longrightarrow> dists s h f \<Longrightarrow>
    length h = length (objects g) \<Longrightarrow> map connected_to h = map connected_to (objects g) \<Longrightarrow>
    \<exists>h' f'. dijkstra_loop s h pq = Some (Inr h') \<and> dists s h' f' \<and>
      length h' = length (objects g) \<and> settled (edges g) f' \<and> (\<forall>v. f' v \<le> f0 v) \<and>
      (\<forall>v < length (objects g). reached (length (objects g)) (edges g) f0 v (f' v))"
proof (induction "length pq" arbitrary: pq h f rule: less_induct)
  case less
  let ?n = "length (objects g)" and ?E = "edges g"
  note qi = less.prems(1) and d = less.prems(2) and l = less.prems(3) and c = less.prems(4)
  show ?case
  proof (cases "pq = []")
    case True
    then have "dijkstra_loop s h pq = Some (Inr h)"
      by (subst dijkstra_loop.simps) (simp add: pop_task_None)
    with queue_inv_empty [of ?n ?E f0 f] qi True d l show ?thesis by blast
  next
    case False
    from pop_task_Some [OF False] obtain u p where
      pop: "pop_task pq = Some (u, AList.delete u pq)" and up: "(u, p) \<in> set pq"
      and least: "\<forall>y \<in> set pq. p \<le> snd y"
      by blast
    from scan_inv_pop [OF qi up least]
    have si: "scan_inv ?n ?E f0 u (f u) (f, AList.delete u pq)" .
    then have u: "u < ?n" by (simp add: scan_inv_def)
    from qi have dk: "distinct (map fst pq)" by (simp add: queue_inv_def)
    from up have uk: "u \<in> fst ` set pq" by force
    let ?al = "connected_to (objects g ! u)"
    from nth_of_map_eq [OF c u] have cu: "connected_to (h ! u) = ?al" .
    have al: "\<forall>x \<in> set ?al. map_of (connected_to (h ! u)) (fst x) = Some (snd x) \<and>
        fst x < length h \<and> is_int (snd x)"
      using entries [OF wf nn u] by (simp add: cu l)
    from u l have ul: "u < length h" by simp
    from dijkstra_scan_dists [OF d ul al, of "AList.delete u pq"] obtain h1 f1 pq1 where
      sc: "dijkstra_scan s u (map fst ?al) (h, AList.delete u pq) = Inr (h1, pq1)"
      and fo: "fold (relax_q u) (map read_entry ?al) (f, AList.delete u pq) = (f1, pq1)"
      and d1: "dists s h1 f1" and l1: "length h1 = length h"
      and c1: "map connected_to h1 = map connected_to h"
      by blast
    have es: "\<forall>e \<in> set (map read_entry ?al). (u, fst e, snd e) \<in> set ?E \<and> 0 \<le> snd e \<and>
        fst e < ?n"
      using entries [OF wf nn u] by (auto simp: read_entry_def)
    from scan_inv_fold [OF si es] fo
    have si1: "scan_inv ?n ?E f0 u (f u) (f1, pq1)"
      and k1: "map fst pq1 = map fst (AList.delete u pq)"
      and out: "\<forall>e \<in> set (map read_entry ?al). f1 (fst e) \<le> f u + snd e"
      by simp_all
    have "\<forall>e \<in> set ?E. fst e = u \<longrightarrow> f1 (fst (snd e)) \<le> f u + snd (snd e)"
    proof (intro ballI impI)
      fix e assume "e \<in> set ?E" and "fst e = u"
      with wf obtain x where "x \<in> set ?al" and e: "e = (u, fst x, int_of (snd x))"
        by (auto simp: in_edges well_formed_def)
      then have "read_entry x \<in> set (map read_entry ?al)" by simp
      with out have "f1 (fst (read_entry x)) \<le> f u + snd (read_entry x)" by blast
      then show "f1 (fst (snd e)) \<le> f u + snd (snd e)" by (simp add: e read_entry_def)
    qed
    with si1 have qi1: "queue_inv ?n ?E f0 (f1, pq1)" by (rule queue_inv_close)
    from k1 have "length pq1 = length (AList.delete u pq)" by (rule map_eq_imp_length_eq)
    with length_delete_distinct [OF dk uk] have "length pq1 < length pq" by simp
    from less.hyps [OF this qi1 d1] l1 l c1 c obtain h' f' where
      "dijkstra_loop s h1 pq1 = Some (Inr h')" and "dists s h' f'" and "length h' = ?n"
      and "settled ?E f'" and "\<forall>v. f' v \<le> f0 v" and "\<forall>v < ?n. reached ?n ?E f0 v (f' v)"
      by auto
    moreover have "dijkstra_loop s h pq = dijkstra_loop s h1 pq1"
      by (subst dijkstra_loop.simps) (simp add: pop get_connections_def cu sc)
    ultimately show ?thesis by auto
  qed
qed

subsection \<open>Loading the queue\<close>

lemma load_tasks_run:
  assumes st: "all_stored g" and d: "dists s (objects g) f"
  shows "set is \<subseteq> {..<length (objects g)} \<Longrightarrow>
    load_tasks g s (map (\<lambda>i. vid (objects g ! i)) is) pq =
      Inr (fold (\<lambda>i q. add_task q i (f i)) is pq)"
proof (induction "is" arbitrary: pq)
  case Nil
  show ?case by simp
next
  case (Cons i "is")
  from Cons.prems have i: "i < length (objects g)" and r: "set is \<subseteq> {..<length (objects g)}"
    by simp_all
  from st i have "get_vertex g (vid (objects g ! i)) = Inr i" by (rule get_vertex_stored)
  moreover from d i have "dist_at (objects g) i s = Inr (f i)"
    by (simp add: dist_at_def dists_def)
  ultimately show ?case using Cons.IH [OF r] by simp
qed

lemma loaded_queue:
  "distinct (map fst pq) \<Longrightarrow> \<forall>x \<in> set pq. snd x = f (fst x) \<Longrightarrow>
     distinct (map fst (fold (\<lambda>i q. add_task q i (f i)) is pq)) \<and>
     fst ` set (fold (\<lambda>i q. add_task q i (f i)) is pq) = fst ` set pq \<union> set is \<and>
     (\<forall>x \<in> set (fold (\<lambda>i q. add_task q i (f i)) is pq). snd x = f (fst x))"
proof (induction "is" arbitrary: pq)
  case Nil
  then show ?case by simp
next
  case (Cons i "is")
  let ?pq = "add_task pq i (f i)"
  from Cons.prems(1) have d: "distinct (map fst ?pq)" by (simp add: add_task_def distinct_update)
  have k: "fst ` set ?pq = {i} \<union> fst ` set pq" by (simp add: add_task_def dom_update)
  from Cons.prems have p: "\<forall>x \<in> set ?pq. snd x = f (fst x)"
    by (auto simp: add_task_def set_update_present)
  from Cons.IH [OF d p] k show ?case by auto
qed

lemma all_stored_initialize_single_source:
  assumes "all_stored g"
  shows "all_stored (initialize_single_source g s)"
proof -
  from initialize_single_source_erase [of g s] obtain h' where
    i: "initialize_single_source g s = g\<lparr>objects := h'\<rparr>"
    and e: "map (erase s) h' = map (erase s) (objects g)"
    by blast
  from e have "map vid h' = map vid (objects g)" and "length h' = length (objects g)"
    by (auto dest: map_erase_blank map_blank_fields)
  with assms show ?thesis by (simp add: i all_stored_def)
qed

lemma get_vertices_stored:
  assumes "all_stored g"
  shows "get_vertices g = map (\<lambda>i. vid (objects g ! i)) [0..<length (objects g)]"
proof -
  have "map (\<lambda>i. vid (objects g ! i)) [0..<length (objects g)] = map vid (objects g)"
    by (rule nth_equalityI) simp_all
  with assms show ?thesis by (simp add: get_vertices_def all_stored_def)
qed

lemma queue_inv_start:
  assumes w: "within n E"
  shows "queue_inv n E f0 (f0, fold (\<lambda>i q. add_task q i (f0 i)) [0..<n] [])"
proof -
  define pq where "pq = fold (\<lambda>i q. add_task q i (f0 i)) [0..<n] []"
  have "distinct (map fst pq) \<and> fst ` set pq = fst ` set ([]::(nat \<times> int) list) \<union> set [0..<n] \<and>
      (\<forall>x \<in> set pq. snd x = f0 (fst x))"
    unfolding pq_def by (rule loaded_queue) simp_all
  then have d: "distinct (map fst pq)" and k: "fst ` set pq = set [0..<n]"
    and p: "\<forall>x \<in> set pq. snd x = f0 (fst x)"
    by simp_all
  have kn: "x \<in> fst ` set pq \<longleftrightarrow> x < n" for x unfolding k by simp
  have 1: "\<forall>x \<in> set pq. fst x < n \<and> snd x = f0 (fst x)"
    using kn p by (metis imageI)
  have 2: "\<forall>e \<in> set E. fst e \<notin> fst ` set pq \<longrightarrow> f0 (fst (snd e)) \<le> f0 (fst e) + snd (snd e)"
    using w by (simp add: kn within_def)
  have 3: "\<forall>x < n. \<forall>v \<in> fst ` set pq. x \<notin> fst ` set pq \<longrightarrow> f0 x \<le> f0 v"
    by (simp add: kn)
  have 4: "\<forall>v. f0 v \<le> f0 v" by simp
  have "queue_inv n E f0 (f0, pq)"
    unfolding queue_inv_def prod.case
    by (intro conjI d 1 reached_start 4 2 3)
  then show ?thesis by (simp only: pq_def)
qed

text \<open>What \<^verbatim>\<open>dijkstra\<close> returns when no weight is negative.\<close>

lemma dijkstra_run:
  assumes wf: "well_formed g" and nn: "nonneg_weights g" and s: "get_vertex g key = Inr s"
  shows "\<exists>h' f'. dijkstra g key = Some (Inr (g\<lparr>objects := h'\<rparr>)) \<and> dists s h' f' \<and>
    length h' = length (objects g) \<and>
    (\<forall>v < length (objects g). least (length (objects g)) (edges g) (start_cost s) v (f' v))"
proof -
  let ?n = "length (objects g)" and ?E = "edges g" and ?f0 = "start_cost s"
  let ?g0 = "initialize_single_source g s"
  let ?pq = "fold (\<lambda>i q. add_task q i (?f0 i)) [0..<?n] []"
  from wf have st: "all_stored g" by (simp add: well_formed_def)
  have st0: "all_stored ?g0" using st by (rule all_stored_initialize_single_source)
  have l0: "length (objects ?g0) = ?n" by (rule length_initialize_single_source)
  have d0: "dists s (objects ?g0) ?f0" using st by (rule dists_initialize_single_source)
  have "load_tasks ?g0 s (get_vertices ?g0) [] = Inr ?pq"
    using load_tasks_run [OF st0 d0, of "[0..<?n]" "[]"]
    by (simp add: get_vertices_stored [OF st0] l0 subset_iff)
  with s have dj: "dijkstra g key =
      map_option (map_sum (\<lambda>e. e) (\<lambda>h. g\<lparr>objects := h\<rparr>)) (dijkstra_loop s (objects ?g0) ?pq)"
    by (simp add: dijkstra_def Let_def)
  have wi: "within ?n ?E"
    using wf nn by (intro within_edges edges_ok_get_edges nonneg_int_weights)
  from dijkstra_loop_settles [OF wf nn queue_inv_start [OF wi] d0 l0
    initialize_single_source_fields(3)]
  obtain h' f' where lp: "dijkstra_loop s (objects ?g0) ?pq = Some (Inr h')"
    and d: "dists s h' f'" and l: "length h' = ?n" and se: "settled ?E f'"
    and le: "\<forall>v. f' v \<le> ?f0 v" and re: "\<forall>v < ?n. reached ?n ?E ?f0 v (f' v)"
    by blast
  from dj lp have "dijkstra g key = Some (Inr (g\<lparr>objects := h'\<rparr>))" by simp
  moreover have "\<forall>v < ?n. least ?n ?E ?f0 v (f' v)"
    using settled_least [OF se le] re by blast
  ultimately show ?thesis using d l by blast
qed

text \<open>
  C3, as the code behaves. In a graph built without adding a key again, with integer weights
  none of which is negative, \<^verbatim>\<open>dijkstra\<close> and \<^verbatim>\<open>bellman_ford\<close> from the same key of the graph
  both return, and every vertex has the same \<^verbatim>\<open>dist[source]\<close> after the one as after the other.
\<close>

theorem C3_dijkstra_bellman_ford:
  assumes "well_formed g" and "nonneg_weights g" and "get_vertex g key = Inr s"
  shows "\<exists>g1 g2. dijkstra g key = Some (Inr g1) \<and> bellman_ford g key = Inr g2 \<and>
    (\<forall>v < length (objects g). \<exists>x. map_of (dist (objects g1 ! v)) s = Some x \<and>
       map_of (dist (objects g2 ! v)) s = Some x) \<and>
    dists_from g1 key = dists_from g2 key"
proof -
  let ?n = "length (objects g)" and ?E = "edges g" and ?f0 = "start_cost s"
  let ?F = "passes_f (?n - 1) ?E ?f0"
  from assms(1) have st: "all_stored g" by (simp add: well_formed_def)
  have iw: "int_weights g" using assms(2) by (rule nonneg_int_weights)
  have wi: "within ?n ?E" using assms(1) iw by (intro within_edges edges_ok_get_edges)
  have nc: "\<not> negative_cycle ?E"
    using nonneg_edges [OF assms(1,2)] by (intro nonneg_no_negative_cycle) blast
  from dijkstra_run [OF assms] obtain h1 f1 where
    dj: "dijkstra g key = Some (Inr (g\<lparr>objects := h1\<rparr>))" and d1: "dists s h1 f1"
    and l1: "length h1 = ?n" and le1: "\<forall>v < ?n. least ?n ?E ?f0 v (f1 v)"
    by blast
  from bellman_ford_run [OF assms(1) iw assms(3)] nc obtain h2 where
    bf: "bellman_ford g key = Inr (g\<lparr>objects := h2\<rparr>)" and d2: "dists s h2 ?F"
    and l2: "length h2 = ?n"
    by auto
  have eq: "f1 v = ?F v" if "v < ?n" for v
    using le1 that passes_f_least [OF wi nc that, of ?f0] by (blast intro: least_unique)
  have same: "map_of (dist (h1 ! v)) s = Some (f1 v) \<and> map_of (dist (h2 ! v)) s = Some (f1 v)"
    if "v < ?n" for v
    using d1 d2 l1 l2 that eq [OF that] by (simp add: dists_def)
  have "dists_from (g\<lparr>objects := h1\<rparr>) key = dists_from (g\<lparr>objects := h2\<rparr>) key"
  proof -
    have "(case x of (k, v) \<Rightarrow> (k, map_of (dist (h1 ! v)) s)) =
        (case x of (k, v) \<Rightarrow> (k, map_of (dist (h2 ! v)) s))" if "x \<in> set (vertices g)" for x
    proof -
      from that have "snd x \<in> set (map snd (vertices g))" by simp
      with st have "snd x < ?n" by (simp add: all_stored_def)
      from same [OF this] show ?thesis by (simp add: case_prod_beta)
    qed
    with assms(3) show ?thesis by (simp add: dists_from_def get_vertex_def)
  qed
  with dj bf same show ?thesis by (intro exI [of _ "g\<lparr>objects := h1\<rparr>"] exI [of _ "g\<lparr>objects := h2\<rparr>"]) auto
qed

text \<open>C3 on the demonstration graph, from key 0.\<close>

theorem C3_dijkstra_bellman_ford_witness:
  "well_formed demo_graph \<and> nonneg_weights demo_graph \<and>
   get_vertex demo_graph (PInt 0) = Inr 0 \<and>
   dijkstra demo_graph (PInt 0) = Some (Inr demo_dijkstra) \<and>
   bellman_ford demo_graph (PInt 0) = Inr demo_bellman_ford \<and>
   dists_from demo_dijkstra (PInt 0) = dists_from demo_bellman_ford (PInt 0)"
proof -
  have 1: "well_formed demo_graph" by code_simp
  have 2: "nonneg_weights demo_graph" by code_simp
  have 3: "get_vertex demo_graph (PInt 0) = Inr 0" by code_simp
  have 4: "dijkstra demo_graph (PInt 0) = Some (Inr demo_dijkstra)" by code_simp
  have 5: "bellman_ford demo_graph (PInt 0) = Inr demo_bellman_ford" by code_simp
  from C3_dijkstra_bellman_ford [OF 1 2 3] 4 5
  have "dists_from demo_dijkstra (PInt 0) = dists_from demo_bellman_ford (PInt 0)" by auto
  with 1 2 3 4 5 show ?thesis by blast
qed

text \<open>
  C3, as the spec states it, fails on \<open>readded_after\<close>: the calls \<^verbatim>\<open>add_edge(1, 2)\<close>,
  \<^verbatim>\<open>add_edge(2, 3)\<close>, \<^verbatim>\<open>add_vertex(2)\<close> and then \<^verbatim>\<open>bfs(1)\<close>, so that every construction call
  comes before the first algorithm; both edges have the default weight 0. The replaced vertex
  of key 2 still is the neighbour of vertex 1, and the search has left it the distance 1.
  \<^verbatim>\<open>dijkstra(1)\<close> relaxes it to 0, puts it into the queue and goes on through it to vertex 3;
  \<^verbatim>\<open>bellman_ford(1)\<close> relaxes only the edges of stored vertices and leaves vertex 3 at
  \<^verbatim>\<open>sys.maxsize\<close>. Both return.
\<close>

theorem C3_counterexample:
  "readded_after =
     returned readded_graph
       (bfs (build [AddEdge [PInt 1, PInt 2], AddEdge [PInt 2, PInt 3], AddVertex (PInt 2)]
          (Graph True)) (PInt 1)) \<and>
   nonneg_weights readded_after \<and> get_vertex readded_after (PInt 1) = Inr 0 \<and>
   map_option (map_sum (\<lambda>e. e) (\<lambda>g. dists_from g (PInt 1))) (dijkstra readded_after (PInt 1)) =
     Some (Inr [(PInt 1, Some 0), (PInt 2, Some maxsize), (PInt 3, Some 0)]) \<and>
   map_sum (\<lambda>e. e) (\<lambda>g. dists_from g (PInt 1)) (bellman_ford readded_after (PInt 1)) =
     Inr [(PInt 1, Some 0), (PInt 2, Some maxsize), (PInt 3, Some maxsize)]"
  by code_simp
section \<open>Breadth-first search\<close>

subsection \<open>Routes\<close>

lemma route_append:
  "route h u (vs @ ws) \<longleftrightarrow> route h u vs \<and> route h (last (u # vs)) ws"
  by (induction vs arbitrary: u) auto

lemma reach_0: "reach h s 0 s"
  by (simp add: reach_def)

lemma reach_Suc:
  assumes "reach h s k u" and "v \<in> set (get_connections (h ! u))"
  shows "reach h s (Suc k) v"
proof -
  from assms(1) obtain vs where "length vs = k" and "route h s vs" and "last (s # vs) = u"
    by (auto simp: reach_def)
  with assms(2) have "length (vs @ [v]) = Suc k \<and> route h s (vs @ [v]) \<and>
      last (s # vs @ [v]) = v"
    by (simp add: route_append)
  then show ?thesis unfolding reach_def by (intro exI)
qed

lemma reach_induct [consumes 1, case_names start step]:
  assumes "reach h s k v" and "P 0 s"
    and "\<And>k u v. reach h s k u \<Longrightarrow> P k u \<Longrightarrow> v \<in> set (get_connections (h ! u)) \<Longrightarrow> P (Suc k) v"
  shows "P k v"
proof -
  have "\<forall>k v. length vs = k \<and> route h s vs \<and> last (s # vs) = v \<longrightarrow> P k v" for vs
  proof (induction vs rule: rev_induct)
    case Nil
    from assms(2) show ?case by simp
  next
    case (snoc w ws)
    show ?case
    proof (intro allI impI)
      fix k v assume a: "length (ws @ [w]) = k \<and> route h s (ws @ [w]) \<and> last (s # ws @ [w]) = v"
      then have r: "route h s ws" and e: "w \<in> set (get_connections (h ! last (s # ws)))"
        and v: "v = w" and k: "k = Suc (length ws)"
        by (auto simp: route_append)
      from snoc r have "P (length ws) (last (s # ws))" by blast
      moreover from r have "reach h s (length ws) (last (s # ws))"
        unfolding reach_def by blast
      ultimately show "P k v" using assms(3) e v k by blast
    qed
  qed
  with assms(1) show ?thesis unfolding reach_def by blast
qed

lemma route_cong:
  assumes "map connected_to h' = map connected_to h"
    and "\<forall>u < length h. \<forall>v \<in> set (get_connections (h ! u)). v < length h"
  shows "u < length h \<Longrightarrow> route h' u vs \<longleftrightarrow> route h u vs"
proof (induction vs arbitrary: u)
  case Nil
  show ?case by simp
next
  case (Cons v vs)
  from nth_of_map_eq [OF assms(1) Cons.prems]
  have c: "get_connections (h' ! u) = get_connections (h ! u)" by (simp add: get_connections_def)
  show ?case
  proof (cases "v \<in> set (get_connections (h ! u))")
    case True
    with assms(2) Cons.prems have "v < length h" by blast
    from Cons.IH [OF this] True c show ?thesis by simp
  next
    case False
    with c show ?thesis by simp
  qed
qed

subsection \<open>The two writes\<close>

lemma length_discover [simp]: "length (discover s u v d h) = length h"
  by (simp add: discover_def)

lemma length_blacken [simp]: "length (blacken u h) = length h"
  by (simp add: blacken_def)

lemma color_discover:
  "v < length h \<Longrightarrow> color (discover s u v d h ! x) = (if x = v then GRAY else color (h ! x))"
  by (simp add: discover_def nth_list_update)

lemma predecessor_discover:
  "v < length h \<Longrightarrow>
     predecessor (discover s u v d h ! x) = (if x = v then Some u else predecessor (h ! x))"
  by (simp add: discover_def nth_list_update)

lemma dists_discover:
  "dists s h f \<Longrightarrow> v < length h \<Longrightarrow> dists s (discover s u v d h) (f(v := d))"
  by (auto simp: dists_def discover_def nth_list_update update_conv')

lemma connected_to_discover: "map connected_to (discover s u v d h) = map connected_to h"
  by (simp add: discover_def map_touch)

lemma color_blacken:
  "u < length h \<Longrightarrow> color (blacken u h ! x) = (if x = u then BLACK else color (h ! x))"
  by (simp add: blacken_def nth_list_update)

lemma predecessor_blacken: "predecessor (blacken u h ! x) = predecessor (h ! x)"
  by (cases "u < length h") (simp_all add: blacken_def nth_list_update list_update_outside)

lemma dist_blacken: "dist (blacken u h ! x) = dist (h ! x)"
  by (cases "u < length h") (simp_all add: blacken_def nth_list_update list_update_outside)

lemma dists_blacken: "dists s h f \<Longrightarrow> dists s (blacken u h) f"
  by (simp add: dists_def dist_blacken)

lemma connected_to_blacken: "map connected_to (blacken u h) = map connected_to h"
  by (simp add: blacken_def map_touch)

subsection \<open>The loop over the neighbours, step by step\<close>

lemma bfs_scan_white:
  assumes "color (h ! v) = WHITE" and "u \<noteq> v" and "v < length h" and "u < length h"
    and "dists s h f" and "\<not> full m q"
  shows "bfs_scan m s u (v # vs) (q, h) = bfs_scan m s u vs (q @ [v], discover s u v (f u + 1) h)"
proof -
  let ?h1 = "h[v := (h ! v)\<lparr>color := GRAY\<rparr>]"
  from assms(2,3) have "?h1 ! u = h ! u" by simp
  with assms(4,5) have du: "map_of (dist (?h1 ! u)) s = Some (f u)" by (simp add: dists_def)
  have "(let h2 = ?h1[v := (?h1 ! v)\<lparr>dist := AList.update s (f u + 1) (dist (?h1 ! v))\<rparr>]
         in h2[v := (h2 ! v)\<lparr>predecessor := Some u\<rparr>]) = discover s u v (f u + 1) h"
    using assms(3) by (simp add: discover_def Let_def)
  with assms(1,6) du show ?thesis by (simp add: Let_def)
qed

lemma bfs_scan_other:
  "color (h ! v) \<noteq> WHITE \<Longrightarrow> bfs_scan m s u (v # vs) (q, h) = bfs_scan m s u vs (q, h)"
  by simp

subsection \<open>What the writes keep\<close>

lemma found_kept:
  assumes "found h0 s h f x"
    and "\<forall>p. color (h ! p) \<noteq> WHITE \<longrightarrow> color (h' ! p) \<noteq> WHITE \<and> f' p = f p"
    and "predecessor (h' ! x) = predecessor (h ! x)" and "f' x = f x"
  shows "found h0 s h' f' x"
proof -
  from assms(1) have a: "0 \<le> f x" and b: "reach h0 s (nat (f x)) x"
    and c: "x \<noteq> s \<longrightarrow>
        (\<exists>p < length h0. predecessor (h ! x) = Some p \<and> color (h ! p) \<noteq> WHITE \<and>
           x \<in> set (get_connections (h0 ! p)) \<and> f x = f p + 1)"
    unfolding found_def by blast+
  have "\<exists>p < length h0. predecessor (h' ! x) = Some p \<and> color (h' ! p) \<noteq> WHITE \<and>
           x \<in> set (get_connections (h0 ! p)) \<and> f' x = f' p + 1" if "x \<noteq> s"
  proof -
    from c that obtain p where p: "p < length h0" "predecessor (h ! x) = Some p"
      "color (h ! p) \<noteq> WHITE" "x \<in> set (get_connections (h0 ! p))" "f x = f p + 1"
      by blast
    from assms(2) p(3) have "color (h' ! p) \<noteq> WHITE" and "f' p = f p" by blast+
    with p assms(3,4) show ?thesis by (intro exI [of _ p]) simp
  qed
  with a b assms(4) show ?thesis unfolding found_def by simp
qed

lemma finished_kept:
  assumes "finished h0 h f b"
    and "\<forall>p. color (h ! p) \<noteq> WHITE \<longrightarrow> color (h' ! p) \<noteq> WHITE \<and> f' p = f p"
    and "f' b = f b"
  shows "finished h0 h' f' b"
  unfolding finished_def
proof
  fix v assume "v \<in> set (get_connections (h0 ! b))"
  with assms(1) have "color (h ! v) \<noteq> WHITE" and "f v \<le> f b + 1"
    unfolding finished_def by blast+
  with assms(2,3) show "color (h' ! v) \<noteq> WHITE \<and> f' v \<le> f' b + 1" by simp
qed

lemma marks_length: "marks h0 s h f \<Longrightarrow> length h = length h0"
  unfolding marks_def by (blast dest: map_eq_imp_length_eq)

lemma marksI:
  assumes "map connected_to h = map connected_to h0" and "dists s h f"
    and "s < length h0" and "color (h ! s) \<noteq> WHITE" and "f s = 0"
    and "predecessor (h ! s) = None"
    and "\<And>v. v < length h0 \<Longrightarrow> color (h ! v) \<noteq> WHITE \<Longrightarrow> found h0 s h f v"
    and "\<And>v. v < length h0 \<Longrightarrow> color (h ! v) = WHITE \<Longrightarrow>
           f v = maxsize \<and> predecessor (h ! v) = None"
    and "\<And>u. u < length h0 \<Longrightarrow> color (h ! u) = BLACK \<Longrightarrow> finished h0 h f u"
  shows "marks h0 s h f"
  unfolding marks_def using assms by blast

lemma marks_discover:
  assumes m: "marks h0 s h f" and u: "u < length h0" and cu: "color (h ! u) \<noteq> WHITE"
    and e: "v \<in> set (get_connections (h0 ! u))" and v: "v < length h0"
    and cv: "color (h ! v) = WHITE"
  shows "marks h0 s (discover s u v (f u + 1) h) (f(v := f u + 1))"
proof (rule marksI)
  let ?h = "discover s u v (f u + 1) h" and ?f = "f(v := f u + 1)"
  from m have l: "length h = length h0" by (rule marks_length)
  with v have vh: "v < length h" by simp
  note col = color_discover [OF vh, of s u "f u + 1"]
  note pre = predecessor_discover [OF vh, of s u "f u + 1"]
  from cu cv have uv: "u \<noteq> v" by auto
  have kept: "\<forall>p. color (h ! p) \<noteq> WHITE \<longrightarrow> color (?h ! p) \<noteq> WHITE \<and> ?f p = f p"
    using cv by (auto simp: col)
  from m cu u have fu: "found h0 s h f u" unfolding marks_def by blast
  from m show "map connected_to ?h = map connected_to h0"
    unfolding marks_def by (simp add: connected_to_discover)
  from m vh show "dists s ?h ?f" unfolding marks_def by (simp add: dists_discover)
  from m show "s < length h0" unfolding marks_def by blast
  from m have cs: "color (h ! s) \<noteq> WHITE" unfolding marks_def by blast
  with cv have vs: "v \<noteq> s" by auto
  from cs show "color (?h ! s) \<noteq> WHITE" by (simp add: col)
  from m vs show "?f s = 0" unfolding marks_def by simp
  from m vs show "predecessor (?h ! s) = None" unfolding marks_def by (simp add: pre)
  show "found h0 s ?h ?f x" if x: "x < length h0" and c: "color (?h ! x) \<noteq> WHITE" for x
  proof (cases "x = v")
    case True
    from fu have f0: "0 \<le> f u" and r: "reach h0 s (nat (f u)) u"
      unfolding found_def by blast+
    from f0 have "nat (f u + 1) = Suc (nat (f u))" by simp
    with reach_Suc [OF r e] have r': "reach h0 s (nat (f u + 1)) v" by simp
    from cu have "color (?h ! u) \<noteq> WHITE" by (simp add: col)
    with u e uv have "\<exists>p < length h0. predecessor (?h ! v) = Some p \<and> color (?h ! p) \<noteq> WHITE \<and>
        v \<in> set (get_connections (h0 ! p)) \<and> ?f v = ?f p + 1"
      by (intro exI [of _ u]) (simp add: pre)
    with f0 r' True show ?thesis unfolding found_def by simp
  next
    case False
    with c have "color (h ! x) \<noteq> WHITE" by (simp add: col)
    with m x have a: "found h0 s h f x" unfolding marks_def by blast
    from False have b: "predecessor (?h ! x) = predecessor (h ! x)" by (simp add: pre)
    from False have c: "?f x = f x" by simp
    show ?thesis by (rule found_kept [OF a kept b c])
  qed
  show "?f x = maxsize \<and> predecessor (?h ! x) = None"
    if x: "x < length h0" and c: "color (?h ! x) = WHITE" for x
  proof -
    from c have xv: "x \<noteq> v" by (auto simp: col)
    with c have "color (h ! x) = WHITE" by (simp add: col)
    with m x have "f x = maxsize \<and> predecessor (h ! x) = None" unfolding marks_def by blast
    with xv show ?thesis by (simp add: pre)
  qed
  show "finished h0 ?h ?f b" if b: "b < length h0" and c: "color (?h ! b) = BLACK" for b
  proof -
    from c have bv: "b \<noteq> v" by (auto simp: col)
    with c have "color (h ! b) = BLACK" by (simp add: col)
    with m b have a: "finished h0 h f b" unfolding marks_def by blast
    from bv have b': "?f b = f b" by simp
    show ?thesis by (rule finished_kept [OF a kept b'])
  qed
qed

lemma marks_blacken:
  assumes m: "marks h0 s h f" and u: "u < length h0" and cu: "color (h ! u) \<noteq> WHITE"
    and d: "\<forall>v \<in> set (get_connections (h0 ! u)). color (h ! v) \<noteq> WHITE \<and> f v \<le> f u + 1"
  shows "marks h0 s (blacken u h) f"
proof (rule marksI)
  let ?h = "blacken u h"
  from m have l: "length h = length h0" by (rule marks_length)
  with u have uh: "u < length h" by simp
  note col = color_blacken [OF uh]
  have kept: "\<forall>p. color (h ! p) \<noteq> WHITE \<longrightarrow> color (?h ! p) \<noteq> WHITE \<and> f p = f p"
    by (auto simp: col)
  have white: "color (h ! x) = WHITE" if "color (?h ! x) = WHITE" for x
    using that by (cases "x = u") (simp_all add: col)
  from m show "map connected_to ?h = map connected_to h0"
    unfolding marks_def by (simp add: connected_to_blacken)
  from m show "dists s ?h f" unfolding marks_def by (simp add: dists_blacken)
  from m show "s < length h0" unfolding marks_def by blast
  from m have "color (h ! s) \<noteq> WHITE" unfolding marks_def by blast
  then show "color (?h ! s) \<noteq> WHITE" by (simp add: col)
  from m show "f s = 0" unfolding marks_def by blast
  from m show "predecessor (?h ! s) = None" unfolding marks_def by (simp add: predecessor_blacken)
  show "found h0 s ?h f x" if x: "x < length h0" and c: "color (?h ! x) \<noteq> WHITE" for x
  proof -
    from c cu have "color (h ! x) \<noteq> WHITE" by (cases "x = u") (simp_all add: col)
    with m x have a: "found h0 s h f x" unfolding marks_def by blast
    have b: "predecessor (?h ! x) = predecessor (h ! x)" by (rule predecessor_blacken)
    show ?thesis by (rule found_kept [OF a kept b refl])
  qed
  show "f x = maxsize \<and> predecessor (?h ! x) = None"
    if x: "x < length h0" and c: "color (?h ! x) = WHITE" for x
  proof -
    from m x white [OF c] have "f x = maxsize \<and> predecessor (h ! x) = None"
      unfolding marks_def by blast
    then show ?thesis by (simp add: predecessor_blacken)
  qed
  show "finished h0 ?h f b" if b: "b < length h0" and c: "color (?h ! b) = BLACK" for b
  proof (cases "b = u")
    case True
    show ?thesis unfolding finished_def
    proof
      fix v assume "v \<in> set (get_connections (h0 ! b))"
      with d True have "color (h ! v) \<noteq> WHITE" and "f v \<le> f b + 1" by blast+
      then show "color (?h ! v) \<noteq> WHITE \<and> f v \<le> f b + 1" by (simp add: col)
    qed
  next
    case False
    with c have "color (h ! b) = BLACK" by (simp add: col)
    with m b have a: "finished h0 h f b" unfolding marks_def by blast
    show ?thesis by (rule finished_kept [OF a kept refl])
  qed
qed

subsection \<open>The queue\<close>

lemma grays_discover:
  "v < length h \<Longrightarrow> grays (discover s u v d h) = insert v (grays h)"
  by (auto simp: grays_def color_discover)

lemma blacks_discover:
  "v < length h \<Longrightarrow> color (h ! v) = WHITE \<Longrightarrow> blacks (discover s u v d h) = blacks h"
  by (auto simp: blacks_def color_discover)

lemma grays_blacken: "u < length h \<Longrightarrow> grays (blacken u h) = grays h - {u}"
  by (auto simp: grays_def color_blacken)

lemma blacks_blacken: "u < length h \<Longrightarrow> blacks (blacken u h) = insert u (blacks h)"
  by (auto simp: blacks_def color_blacken)

lemma bfs_scan_inv_pop:
  assumes "bfs_inv h0 s (u # q) h f"
  shows "bfs_scan_inv h0 s u (blacks h) [] q h f"
proof -
  from assms have m: "marks h0 s h f" and d: "distinct (u # q)" and g: "set (u # q) = grays h"
    and so: "sorted (map f (u # q))" and le: "\<forall>x \<in> set (u # q). f x \<le> f (hd (u # q)) + 1"
    and bl: "\<forall>b \<in> blacks h. \<forall>x \<in> set (u # q). f b \<le> f x"
    unfolding bfs_inv_def by blast+
  from g have 1: "u \<in> grays h" by auto
  from d have 2: "distinct q" by simp
  from d g have 3: "set q = grays h - {u}" by auto
  from so have 4: "sorted (map f q)" by simp
  from so le have 5: "\<forall>x \<in> set q. f u \<le> f x \<and> f x \<le> f u + 1" by auto
  from bl have 6: "\<forall>b \<in> blacks h. f b \<le> f u" by simp
  from m 1 2 3 4 5 6 show ?thesis unfolding bfs_scan_inv_def by simp
qed

lemma bfs_scan_inv_white:
  assumes i: "bfs_scan_inv h0 s u B ds q h f"
    and e: "v \<in> set (get_connections (h0 ! u))" and v: "v < length h0"
    and cv: "color (h ! v) = WHITE"
  shows "bfs_scan_inv h0 s u B (v # ds) (q @ [v]) (discover s u v (f u + 1) h) (f(v := f u + 1))"
proof -
  let ?h = "discover s u v (f u + 1) h" and ?f = "f(v := f u + 1)"
  from i have m: "marks h0 s h f" and ug: "u \<in> grays h" and d: "distinct q"
    and g: "set q = grays h - {u}" and so: "sorted (map f q)"
    and le: "\<forall>x \<in> set q. f u \<le> f x \<and> f x \<le> f u + 1"
    and bl: "\<forall>b \<in> blacks h. f b \<le> f u" and B: "B \<subseteq> blacks h"
    and ds: "\<forall>v \<in> set ds. color (h ! v) \<noteq> WHITE \<and> f v \<le> f u + 1"
    unfolding bfs_scan_inv_def by blast+
  from m have l: "length h = length h0" by (rule marks_length)
  with v have vh: "v < length h" by simp
  from ug have u: "u < length h0" and cu: "color (h ! u) = GRAY" by (simp_all add: grays_def l)
  from cu cv have uv: "u \<noteq> v" by auto
  from cv have vg: "v \<notin> grays h" by (simp add: grays_def)
  with g have vq: "v \<notin> set q" by simp
  from cv have vb: "v \<notin> blacks h" by (simp add: blacks_def)
  from cu have "color (h ! u) \<noteq> WHITE" by simp
  from marks_discover [OF m u this e v cv] have 1: "marks h0 s ?h ?f" .
  from ug have 2: "u \<in> grays ?h" by (simp add: grays_discover [OF vh])
  from d vq have 3: "distinct (q @ [v])" by simp
  from g uv have 4: "set (q @ [v]) = grays ?h - {u}" by (auto simp: grays_discover [OF vh])
  from vq have mq: "map ?f q = map f q" by (induction q) auto
  from so le have 5: "sorted (map ?f (q @ [v]))" by (simp add: mq sorted_append)
  from le uv vq have 6: "\<forall>x \<in> set (q @ [v]). ?f u \<le> ?f x \<and> ?f x \<le> ?f u + 1" by auto
  from bl vb uv have 7: "\<forall>b \<in> blacks ?h. ?f b \<le> ?f u"
    by (auto simp: blacks_discover [OF vh cv])
  from B have 8: "B \<subseteq> blacks ?h" by (simp add: blacks_discover [OF vh cv])
  have 9: "\<forall>x \<in> set (v # ds). color (?h ! x) \<noteq> WHITE \<and> ?f x \<le> ?f u + 1"
  proof
    fix x assume x: "x \<in> set (v # ds)"
    show "color (?h ! x) \<noteq> WHITE \<and> ?f x \<le> ?f u + 1"
    proof (cases "x = v")
      case True
      with uv show ?thesis by (simp add: color_discover [OF vh])
    next
      case False
      with x ds have "color (h ! x) \<noteq> WHITE \<and> f x \<le> f u + 1" by auto
      with False uv show ?thesis by (simp add: color_discover [OF vh])
    qed
  qed
  from 1 2 3 4 5 6 7 8 9 show ?thesis unfolding bfs_scan_inv_def by blast
qed

lemma bfs_scan_inv_other:
  assumes i: "bfs_scan_inv h0 s u B ds q h f" and v: "v < length h0"
    and cv: "color (h ! v) \<noteq> WHITE"
  shows "bfs_scan_inv h0 s u B (v # ds) q h f"
proof -
  from i have m: "marks h0 s h f" and ug: "u \<in> grays h"
    and g: "set q = grays h - {u}"
    and le: "\<forall>x \<in> set q. f u \<le> f x \<and> f x \<le> f u + 1"
    and bl: "\<forall>b \<in> blacks h. f b \<le> f u"
    unfolding bfs_scan_inv_def by blast+
  from m have l: "length h = length h0" by (rule marks_length)
  have "f v \<le> f u + 1"
  proof (cases "color (h ! v)")
    case WHITE
    with cv show ?thesis by simp
  next
    case BLACK
    with v l have "v \<in> blacks h" by (simp add: blacks_def)
    with bl have "f v \<le> f u" by blast
    then show ?thesis by simp
  next
    case GRAY
    with v l have vg: "v \<in> grays h" by (simp add: grays_def)
    show ?thesis
    proof (cases "v = u")
      case True
      then show ?thesis by simp
    next
      case False
      with vg g have "v \<in> set q" by simp
      with le show ?thesis by blast
    qed
  qed
  with i cv show ?thesis unfolding bfs_scan_inv_def by simp
qed

lemma bfs_scan_inv_room:
  assumes "bfs_scan_inv h0 s u B ds q h f"
  shows "\<not> full (int (length h0)) q"
proof -
  from assms have m: "marks h0 s h f" and ug: "u \<in> grays h" and d: "distinct q"
    and g: "set q = grays h - {u}"
    unfolding bfs_scan_inv_def by blast+
  from m have l: "length h = length h0" by (rule marks_length)
  from ug l have u: "u < length h0" by (simp add: grays_def)
  from g l have "set q \<subseteq> {..<length h0} - {u}" by (auto simp: grays_def)
  then have "card (set q) \<le> card ({..<length h0} - {u})" by (intro card_mono) simp_all
  also from u have "\<dots> = length h0 - 1" by simp
  finally have "length q \<le> length h0 - 1" using d by (simp add: distinct_card)
  with u have "length q < length h0" by simp
  then show ?thesis unfolding full_def by simp
qed

lemma bfs_scan_run:
  assumes "closed h0"
  shows "bfs_scan_inv h0 s u B ds q h f \<Longrightarrow> set vs \<subseteq> set (get_connections (h0 ! u)) \<Longrightarrow>
    \<exists>q' h' f'. bfs_scan (int (length h0)) s u vs (q, h) = Some (Inr (q', h')) \<and>
      bfs_scan_inv h0 s u B (rev vs @ ds) q' h' f'"
proof (induction vs arbitrary: ds q h f)
  case Nil
  then show ?case by auto
next
  case (Cons v vs)
  from Cons.prems(1) have m: "marks h0 s h f" and ug: "u \<in> grays h"
    unfolding bfs_scan_inv_def by blast+
  from m have l: "length h = length h0" by (rule marks_length)
  from ug l have u: "u < length h0" and cu: "color (h ! u) = GRAY" by (simp_all add: grays_def)
  from Cons.prems(2) have e: "v \<in> set (get_connections (h0 ! u))"
    and vs: "set vs \<subseteq> set (get_connections (h0 ! u))" by simp_all
  from assms u e have v: "v < length h0" unfolding closed_def by blast
  show ?case
  proof (cases "color (h ! v) = WHITE")
    case True
    from cu True have uv: "u \<noteq> v" by auto
    from m have dd: "dists s h f" unfolding marks_def by blast
    from bfs_scan_white [OF True uv _ _ dd bfs_scan_inv_room [OF Cons.prems(1)], of vs] v u l
    have eq: "bfs_scan (int (length h0)) s u (v # vs) (q, h) =
        bfs_scan (int (length h0)) s u vs (q @ [v], discover s u v (f u + 1) h)"
      by simp
    from Cons.IH [OF bfs_scan_inv_white [OF Cons.prems(1) e v True] vs] eq
    show ?thesis by simp
  next
    case False
    from Cons.IH [OF bfs_scan_inv_other [OF Cons.prems(1) v False] vs]
      bfs_scan_other [OF False, of "int (length h0)" s u vs q]
    show ?thesis by simp
  qed
qed

lemma bfs_inv_close:
  assumes i: "bfs_scan_inv h0 s u B ds q h f"
    and a: "set (get_connections (h0 ! u)) \<subseteq> set ds"
  shows "bfs_inv h0 s q (blacken u h) f \<and> insert u B \<subseteq> blacks (blacken u h)"
proof -
  let ?h = "blacken u h"
  from i have m: "marks h0 s h f" and ug: "u \<in> grays h" and d: "distinct q"
    and g: "set q = grays h - {u}" and so: "sorted (map f q)"
    and le: "\<forall>x \<in> set q. f u \<le> f x \<and> f x \<le> f u + 1"
    and bl: "\<forall>b \<in> blacks h. f b \<le> f u" and B: "B \<subseteq> blacks h"
    and ds: "\<forall>v \<in> set ds. color (h ! v) \<noteq> WHITE \<and> f v \<le> f u + 1"
    unfolding bfs_scan_inv_def by blast+
  from m have l: "length h = length h0" by (rule marks_length)
  from ug l have u: "u < length h0" and cu: "color (h ! u) = GRAY" and uh: "u < length h"
    by (simp_all add: grays_def)
  from cu have cw: "color (h ! u) \<noteq> WHITE" by simp
  from a ds have "\<forall>v \<in> set (get_connections (h0 ! u)). color (h ! v) \<noteq> WHITE \<and> f v \<le> f u + 1"
    by blast
  from marks_blacken [OF m u cw this] have 1: "marks h0 s ?h f" .
  from g have 3: "set q = grays ?h" by (simp add: grays_blacken [OF uh])
  have 5: "\<forall>x \<in> set q. f x \<le> f (hd q) + 1"
  proof
    fix x assume x: "x \<in> set q"
    then have "hd q \<in> set q" by (cases q) auto
    with le have "f u \<le> f (hd q)" by blast
    moreover from le x have "f x \<le> f u + 1" by blast
    ultimately show "f x \<le> f (hd q) + 1" by simp
  qed
  have 6: "\<forall>b \<in> blacks ?h. \<forall>x \<in> set q. f b \<le> f x"
  proof (intro ballI)
    fix b x assume b: "b \<in> blacks ?h" and x: "x \<in> set q"
    from le x have ux: "f u \<le> f x" by blast
    show "f b \<le> f x"
    proof (cases "b = u")
      case True
      with ux show ?thesis by simp
    next
      case False
      with b have "b \<in> blacks h" by (simp add: blacks_blacken [OF uh])
      with bl have "f b \<le> f u" by blast
      with ux show ?thesis by simp
    qed
  qed
  from B have 7: "insert u B \<subseteq> blacks ?h" by (auto simp: blacks_blacken [OF uh])
  from 1 d 3 so 5 6 7 show ?thesis unfolding bfs_inv_def by blast
qed

lemma bfs_loop_run:
  assumes "closed h0"
  shows "bfs_inv h0 s q h f \<Longrightarrow>
    \<exists>h' f'. bfs_loop (int (length h0)) s q h = Some (Inr h') \<and> bfs_inv h0 s [] h' f'"
proof (induction "card ({..<length h0} - blacks h)" arbitrary: q h f rule: less_induct)
  case less
  show ?case
  proof (cases q)
    case Nil
    with less.prems show ?thesis by (subst bfs_loop.simps) auto
  next
    case (Cons u q')
    from less.prems Cons have i: "bfs_inv h0 s (u # q') h f" by simp
    then have m: "marks h0 s h f" and g: "set (u # q') = grays h"
      unfolding bfs_inv_def by blast+
    from m have l: "length h = length h0" by (rule marks_length)
    from g l have u: "u < length h0" and cu: "color (h ! u) = GRAY" by (auto simp: grays_def)
    from m have "map connected_to h = map connected_to h0" unfolding marks_def by blast
    from nth_of_map_eq [OF this u]
    have c: "get_connections (h ! u) = get_connections (h0 ! u)" by (simp add: get_connections_def)
    from bfs_scan_run [OF assms bfs_scan_inv_pop [OF i], of "get_connections (h0 ! u)"]
    obtain q1 h1 f1 where
      sc: "bfs_scan (int (length h0)) s u (get_connections (h0 ! u)) (q', h) = Some (Inr (q1, h1))"
      and i1: "bfs_scan_inv h0 s u (blacks h) (rev (get_connections (h0 ! u)) @ []) q1 h1 f1"
      by auto
    from bfs_inv_close [OF i1] have i2: "bfs_inv h0 s q1 (blacken u h1) f1"
      and b2: "insert u (blacks h) \<subseteq> blacks (blacken u h1)"
      by auto
    from cu have "u \<notin> blacks h" by (simp add: blacks_def)
    with u b2 have "{..<length h0} - blacks (blacken u h1) \<subset> {..<length h0} - blacks h"
      by auto
    then have "card ({..<length h0} - blacks (blacken u h1)) < card ({..<length h0} - blacks h)"
      by (intro psubset_card_mono) simp_all
    from less.hyps [OF this i2] obtain h' f' where
      "bfs_loop (int (length h0)) s q1 (blacken u h1) = Some (Inr h')" and "bfs_inv h0 s [] h' f'"
      by auto
    with Cons c sc show ?thesis
      by (subst bfs_loop.simps) (auto simp: blacken_def)
  qed
qed

subsection \<open>The run\<close>

lemma follows_Cons:
  "c \<noteq> [] \<Longrightarrow> follows h (v # c) \<longleftrightarrow> predecessor (h ! v) = Some (hd c) \<and> follows h c"
  by (cases c) simp_all

lemma closed_refs_ok: "refs_ok g \<Longrightarrow> closed (objects g)"
  unfolding refs_ok_def closed_def by (metis nth_mem)

lemma bfs_inv_start:
  assumes wf: "well_formed g" and s: "get_vertex g key = Inr s"
  shows "bfs_inv (objects g) s [s] (bfs_start g s) (start_cost s)"
proof -
  let ?o = "objects g" and ?h = "bfs_start g s" and ?f = "start_cost s"
  from wf have st: "all_stored g" by (simp add: well_formed_def)
  from get_vertex_range [OF st s] have sn: "s < length ?o" .
  have l: "length ?h = length ?o" by (rule length_bfs_start)
  have nth: "?h ! a = (?o ! a)\<lparr>color := (if a = s then GRAY else WHITE), predecessor := None,
      dist := AList.update s (if a = s then 0 else maxsize) (dist (?o ! a))\<rparr>"
    if "a < length ?o" for a
    using that st by (intro bfs_start_nth) (simp_all add: all_stored_def)
  have m: "marks ?o s ?h ?f"
  proof (rule marksI)
    show "map connected_to ?h = map connected_to ?o"
      by (rule nth_equalityI) (simp_all add: l nth)
    show "dists s ?h ?f"
      unfolding dists_def by (simp add: l nth update_conv' start_cost_def)
    show "s < length ?o" by (rule sn)
    show "color (?h ! s) \<noteq> WHITE" by (simp add: nth [OF sn])
    show "?f s = 0" by (simp add: start_cost_def)
    show "predecessor (?h ! s) = None" by (simp add: nth [OF sn])
    show "found ?o s ?h ?f v" if "v < length ?o" and "color (?h ! v) \<noteq> WHITE" for v
    proof -
      from that have "v = s" by (simp add: nth split: if_splits)
      then show ?thesis unfolding found_def by (simp add: start_cost_def reach_0)
    qed
    show "?f v = maxsize \<and> predecessor (?h ! v) = None"
      if "v < length ?o" and "color (?h ! v) = WHITE" for v
      using that by (simp add: nth start_cost_def split: if_splits)
    show "finished ?o ?h ?f u" if "u < length ?o" and "color (?h ! u) = BLACK" for u
      using that by (simp add: nth split: if_splits)
  qed
  have g: "grays ?h = {s}"
    using sn by (auto simp: grays_def l nth split: if_splits)
  have b: "blacks ?h = {}"
    by (auto simp: blacks_def l nth split: if_splits)
  from m g b show ?thesis unfolding bfs_inv_def by simp
qed

text \<open>When the queue is empty: the predecessor chains and the distances.\<close>

lemma bfs_inv_chain:
  assumes m: "marks h0 s h f"
  shows "v < length h0 \<Longrightarrow> color (h ! v) \<noteq> WHITE \<Longrightarrow>
    \<exists>vs. int (length vs) = f v \<and> route h0 s vs \<and> last (s # vs) = v \<and> follows h (rev (s # vs))"
proof (induction "nat (f v)" arbitrary: v rule: less_induct)
  case less
  from m less.prems have fv: "found h0 s h f v" unfolding marks_def by blast
  show ?case
  proof (cases "v = s")
    case True
    from m have "f s = 0" and "predecessor (h ! s) = None" unfolding marks_def by blast+
    with True show ?thesis by (intro exI [of _ "[]"]) simp
  next
    case False
    with fv obtain p where p: "p < length h0" "predecessor (h ! v) = Some p"
      "color (h ! p) \<noteq> WHITE" "v \<in> set (get_connections (h0 ! p))" "f v = f p + 1"
      unfolding found_def by blast
    from m p(1,3) have "found h0 s h f p" unfolding marks_def by blast
    then have p0: "0 \<le> f p" unfolding found_def by blast
    with p(5) have "nat (f p) < nat (f v)" by simp
    from less.hyps [OF this p(1,3)] obtain ws where ws: "int (length ws) = f p" "route h0 s ws"
      "last (s # ws) = p" "follows h (rev (s # ws))"
      by blast
    have "hd (rev (s # ws)) = p" using ws(3) by (simp add: hd_rev del: last.simps rev.simps)
    with ws(4) p(2) have "follows h (v # rev (s # ws))"
      by (subst follows_Cons) simp_all
    then have "follows h (rev (s # ws @ [v]))" by simp
    moreover from ws(2,3) p(4) have "route h0 s (ws @ [v])" by (simp add: route_append)
    moreover from ws(1) p(5) have "int (length (ws @ [v])) = f v" by simp
    moreover have "last (s # ws @ [v]) = v" by simp
    ultimately show ?thesis by (intro exI [of _ "ws @ [v]"]) blast
  qed
qed

lemma bfs_inv_reach:
  assumes i: "bfs_inv h0 s [] h f" and c: "closed h0" and r: "reach h0 s k v"
  shows "v < length h0 \<and> color (h ! v) \<noteq> WHITE \<and> f v \<le> int k"
  using r
proof (induction rule: reach_induct)
  case start
  from i have "marks h0 s h f" unfolding bfs_inv_def by blast
  then show ?case unfolding marks_def by simp
next
  case (step k u v)
  from i have m: "marks h0 s h f" and g: "grays h = {}" unfolding bfs_inv_def by auto
  from m have l: "length h = length h0" by (rule marks_length)
  from step.IH have u: "u < length h0" and cu: "color (h ! u) \<noteq> WHITE" and fu: "f u \<le> int k"
    by blast+
  from g u l have "color (h ! u) \<noteq> GRAY" by (auto simp: grays_def)
  with cu have "color (h ! u) = BLACK" by (cases "color (h ! u)") simp_all
  with m u have "finished h0 h f u" unfolding marks_def by blast
  with step.hyps(2) have "color (h ! v) \<noteq> WHITE" and "f v \<le> f u + 1"
    unfolding finished_def by blast+
  moreover from c u step.hyps(2) have "v < length h0" unfolding closed_def by blast
  ultimately show ?case using fu by simp
qed

lemma bfs_run:
  assumes wf: "well_formed g" and s: "get_vertex g key = Inr s"
  shows "\<exists>h f. bfs g key = Some (Inr (g\<lparr>objects := h\<rparr>)) \<and> bfs_inv (objects g) s [] h f"
proof -
  from wf have c: "closed (objects g)" and n: "num_vertices g = int (length (objects g))"
    by (simp_all add: well_formed_def closed_refs_ok)
  from bfs_loop_run [OF c bfs_inv_start [OF wf s]] obtain h f where
    "bfs_loop (int (length (objects g))) s [s] (bfs_start g s) = Some (Inr h)"
    and "bfs_inv (objects g) s [] h f"
    by blast
  with s n show ?thesis by (auto simp: bfs_def)
qed

text \<open>
  C1, as the code behaves. In a graph built without adding a key again, \<^verbatim>\<open>bfs\<close> from a key of
  the graph returns. Every vertex \<open>v\<close> that some route reaches from the source \<open>s\<close> then has a
  route \<open>vs\<close> from the source with the least number of edges of all, \<^verbatim>\<open>dist[source]\<close> is that
  number, and the predecessor chain of \<open>v\<close> is this route read backwards, down to the source,
  which has no predecessor. Every vertex that no route reaches has \<^verbatim>\<open>dist[source]\<close> equal to
  \<^verbatim>\<open>sys.maxsize\<close> and no predecessor.
\<close>

theorem C1_bfs:
  assumes "well_formed g" and "get_vertex g key = Inr s"
  shows "\<exists>g'. bfs g key = Some (Inr g') \<and>
    (\<forall>v < length (objects g).
       ((\<exists>k. reach (objects g) s k v) \<longrightarrow>
          (\<exists>vs. route (objects g) s vs \<and> last (s # vs) = v \<and>
             (\<forall>k. reach (objects g) s k v \<longrightarrow> length vs \<le> k) \<and>
             map_of (dist (objects g' ! v)) s = Some (int (length vs)) \<and>
             follows (objects g') (rev (s # vs)))) \<and>
       (\<not> (\<exists>k. reach (objects g) s k v) \<longrightarrow>
          map_of (dist (objects g' ! v)) s = Some maxsize \<and>
          predecessor (objects g' ! v) = None))"
proof -
  let ?o = "objects g"
  from assms(1) have c: "closed ?o" by (simp add: well_formed_def closed_refs_ok)
  from bfs_run [OF assms] obtain h f where b: "bfs g key = Some (Inr (g\<lparr>objects := h\<rparr>))"
    and i: "bfs_inv ?o s [] h f"
    by blast
  from i have m: "marks ?o s h f" unfolding bfs_inv_def by blast
  from m have l: "length h = length ?o" by (rule marks_length)
  from m have d: "dists s h f" unfolding marks_def by blast
  have 1: "\<exists>vs. route ?o s vs \<and> last (s # vs) = v \<and>
             (\<forall>k. reach ?o s k v \<longrightarrow> length vs \<le> k) \<and>
             map_of (dist (h ! v)) s = Some (int (length vs)) \<and> follows h (rev (s # vs))"
    if v: "v < length ?o" and r: "\<exists>k. reach ?o s k v" for v
  proof -
    from r obtain k where "reach ?o s k v" by blast
    from bfs_inv_reach [OF i c this] have cv: "color (h ! v) \<noteq> WHITE" by blast
    from bfs_inv_chain [OF m v cv] obtain vs where vs: "int (length vs) = f v" "route ?o s vs"
      "last (s # vs) = v" "follows h (rev (s # vs))"
      by blast
    have "length vs \<le> j" if "reach ?o s j v" for j
      using bfs_inv_reach [OF i c that] vs(1) by simp
    moreover from d v l vs(1) have "map_of (dist (h ! v)) s = Some (int (length vs))"
      by (simp add: dists_def)
    ultimately show ?thesis using vs by blast
  qed
  have 2: "map_of (dist (h ! v)) s = Some maxsize \<and> predecessor (h ! v) = None"
    if v: "v < length ?o" and r: "\<not> (\<exists>k. reach ?o s k v)" for v
  proof -
    have "color (h ! v) = WHITE"
    proof (rule ccontr)
      assume "color (h ! v) \<noteq> WHITE"
      with m v have "found ?o s h f v" unfolding marks_def by blast
      with r show False unfolding found_def by blast
    qed
    with m v have "f v = maxsize \<and> predecessor (h ! v) = None" unfolding marks_def by blast
    with d v l show ?thesis by (simp add: dists_def)
  qed
  from b 1 2 show ?thesis by (intro exI [of _ "g\<lparr>objects := h\<rparr>"]) simp
qed

text \<open>
  C1 on the demonstration graph, from key 0, at vertex 3: three edges away and no less, by
  the route through 1 and 2, which is its predecessor chain read backwards.
\<close>

theorem C1_bfs_witness:
  "well_formed demo_graph \<and> get_vertex demo_graph (PInt 0) = Inr 0 \<and>
   bfs demo_graph (PInt 0) = Some (Inr demo_bfs) \<and>
   reach (objects demo_graph) 0 3 3 \<and> \<not> reach (objects demo_graph) 0 2 3 \<and>
   map_of (dist (objects demo_bfs ! 3)) 0 = Some 3 \<and>
   route (objects demo_graph) 0 [1, 2, 3] \<and> follows (objects demo_bfs) [3, 2, 1, 0]"
proof -
  have 1: "well_formed demo_graph" by code_simp
  have 2: "get_vertex demo_graph (PInt 0) = Inr 0" by code_simp
  have 3: "bfs demo_graph (PInt 0) = Some (Inr demo_bfs)" by code_simp
  have 4: "route (objects demo_graph) 0 [1, 2, 3]" by code_simp
  have 5: "follows (objects demo_bfs) [3, 2, 1, 0]" by code_simp
  have 6: "map_of (dist (objects demo_bfs ! 3)) 0 = Some 3" by code_simp
  have 7: "3 < length (objects demo_graph)" by code_simp
  from 4 have 8: "reach (objects demo_graph) 0 3 3"
    unfolding reach_def by (intro exI [of _ "[1, 2, 3]"]) simp
  from C1_bfs [OF 1 2] obtain g' where ab: "bfs demo_graph (PInt 0) = Some (Inr g') \<and>
    (\<forall>v < length (objects demo_graph).
       ((\<exists>k. reach (objects demo_graph) 0 k v) \<longrightarrow>
          (\<exists>vs. route (objects demo_graph) 0 vs \<and> last (0 # vs) = v \<and>
             (\<forall>k. reach (objects demo_graph) 0 k v \<longrightarrow> length vs \<le> k) \<and>
             map_of (dist (objects g' ! v)) 0 = Some (int (length vs)) \<and>
             follows (objects g') (rev (0 # vs)))) \<and>
       (\<not> (\<exists>k. reach (objects demo_graph) 0 k v) \<longrightarrow>
          map_of (dist (objects g' ! v)) 0 = Some maxsize \<and>
          predecessor (objects g' ! v) = None))" ..
  from ab have a: "bfs demo_graph (PInt 0) = Some (Inr g')" by (rule conjunct1)
  from a 3 have g': "g' = demo_bfs" by simp
  from 8 have 9: "\<exists>k. reach (objects demo_graph) 0 k 3" by (rule exI)
  note c = ab [THEN conjunct2, rule_format, OF 7, THEN conjunct1, rule_format, OF 9]
  from c obtain vs where e: "route (objects demo_graph) 0 vs \<and> last (0 # vs) = 3 \<and>
      (\<forall>k. reach (objects demo_graph) 0 k 3 \<longrightarrow> length vs \<le> k) \<and>
      map_of (dist (objects g' ! 3)) 0 = Some (int (length vs)) \<and>
      follows (objects g') (rev (0 # vs))" ..
  from e have m: "\<forall>k. reach (objects demo_graph) 0 k 3 \<longrightarrow> length vs \<le> k"
    and d: "map_of (dist (objects g' ! 3)) 0 = Some (int (length vs))"
    by simp_all
  from d 6 g' have "length vs = 3" by simp
  with m have "\<not> reach (objects demo_graph) 0 2 3" by fastforce
  with 1 2 3 4 5 6 8 show ?thesis by blast
qed

text \<open>
  C1, as the spec states it, fails on \<open>readded_after\<close>: the calls \<^verbatim>\<open>add_edge(1, 2)\<close>,
  \<^verbatim>\<open>add_edge(2, 3)\<close>, \<^verbatim>\<open>add_vertex(2)\<close> and a first \<^verbatim>\<open>bfs(1)\<close>. The replaced vertex of key 2 still
  is the neighbour of vertex 1 and leads on to vertex 3, but it is not stored, so a second
  \<^verbatim>\<open>bfs(1)\<close> does not reset it, finds it black and stops there: vertex 3, two edges from the
  source, is left at \<^verbatim>\<open>sys.maxsize\<close> without a predecessor.
\<close>

theorem C1_counterexample:
  "bfs readded_graph (PInt 1) = Some (Inr readded_after) \<and>
   get_vertex readded_after (PInt 1) = Inr 0 \<and> get_vertex readded_after (PInt 3) = Inr 2 \<and>
   route (objects readded_after) 0 [1, 2] \<and>
   map_option (map_sum (\<lambda>e. e)
       (\<lambda>g. (map_of (dist (objects g ! 2)) 0, predecessor (objects g ! 2))))
     (bfs readded_after (PInt 1)) = Some (Inr (Some maxsize, None))"
  by code_simp

end
